theory Spec2Isabelle
  imports Main "HOL-Library.Word" "HOL-Library.FSet" "HOL-Library.Multiset"
begin

section \<open>Positions, segments and chunks\<close>

text \<open>
  A \<open>RowID\<close> addresses one row: the chunk and the offset inside the chunk
  (\<open>ChunkID\<close> and \<open>ChunkOffset\<close> are unsigned 32-bit numbers in the source; the index
  only stores and compares them, so they are natural numbers here).
\<close>

datatype RowID = RowID (chunk_id: nat) (chunk_offset: nat)

text \<open>
  Modelled from the spec: the segment source (\<open>storage/segment_iterate.hpp\<close>, \<open>Chunk\<close> and
  \<open>Table\<close> are not part of the sources at hand). A segment is the column of one chunk;
  iterating it visits every row once, in storage order, and hands the visitor the row's
  offset, whether the cell is NULL, and its value. A cell is \<open>None\<close> when it is NULL.
  A chunk reports its row count (\<open>Chunk::size()\<close>, a \<open>ChunkOffset\<close>) and gives the segment
  of a column (\<open>Chunk::get_segment\<close>); asking for a column the chunk does not have is a
  contract violation of the caller and outside this model.
\<close>

type_synonym 'a segment = "'a option list"

record 'a Chunk =
  chunk_size :: "32 word"
  get_segment :: "nat \<Rightarrow> 'a segment"

definition segment_iterate :: "'a segment \<Rightarrow> (nat \<Rightarrow> 'a option \<Rightarrow> 's \<Rightarrow> 's) \<Rightarrow> 's \<Rightarrow> 's" where
  "segment_iterate seg visit s = fold (\<lambda>(off, cell). visit off cell) (enumerate 0 seg) s"

section \<open>The partial hash index\<close>

subsection \<open>The bucket container\<close>

text \<open>
  \<open>_map\<close> is a hash map from values to vectors of row ids. Its iteration order is
  whatever the hash table makes of the keys. The model keeps the buckets as a list in
  iteration order; where a new key lands in that order is decided by a placement function,
  which every operation takes as a parameter, so that nothing proved below depends on it.
\<close>

type_synonym 'a buckets = "('a \<times> RowID list) list"
type_synonym 'a placement = "'a \<Rightarrow> 'a list \<Rightarrow> nat"

text \<open>
  The hash map finds a key by comparing it with the stored keys, using \<open>operator==\<close> of the
  data type (the hash is taken to agree with it). The index is instantiated for every data
  type of the system, \<open>float\<close> and \<open>double\<close> among them, whose \<open>==\<close> is not reflexive: NaN
  is unequal to itself. So the comparison is a parameter \<open>eq\<close> of every operation that looks
  a key up; for the integer and string types it is equality.
\<close>

type_synonym 'a key_equal = "'a \<Rightarrow> 'a \<Rightarrow> bool"

text \<open>\<open>_map.contains(key)\<close>\<close>

definition contains :: "'a key_equal \<Rightarrow> 'a buckets \<Rightarrow> 'a \<Rightarrow> bool" where
  "contains eq m k = list_ex (\<lambda>bucket. eq (fst bucket) k) m"

text \<open>\<open>_map.find(key)\<close>: the position of the key's bucket, the end position when absent.\<close>

fun find_bucket :: "'a key_equal \<Rightarrow> 'a buckets \<Rightarrow> 'a \<Rightarrow> nat" where
  "find_bucket eq [] k = 0"
| "find_bucket eq ((k', b) # m) k = (if eq k' k then 0 else Suc (find_bucket eq m k))"

text \<open>
  \<open>_map[key]\<close> followed by a change \<open>f\<close> of the vector it refers to: the subscript
  operator finds the key's bucket and, when the key is absent, first creates an empty one.
\<close>

fun modify_bucket ::
  "'a key_equal \<Rightarrow> 'a \<Rightarrow> (RowID list \<Rightarrow> RowID list) \<Rightarrow> 'a buckets \<Rightarrow> 'a buckets" where
  "modify_bucket eq k f [] = []"
| "modify_bucket eq k f ((k', b) # m) =
     (if eq k' k then (k', f b) # m else (k', b) # modify_bucket eq k f m)"

definition insert_bucket :: "'a placement \<Rightarrow> 'a \<Rightarrow> RowID list \<Rightarrow> 'a buckets \<Rightarrow> 'a buckets" where
  "insert_bucket slot k b m =
     (let i = min (slot k (map fst m)) (length m) in take i m @ (k, b) # drop i m)"

definition subscript ::
  "'a key_equal \<Rightarrow> 'a placement \<Rightarrow> 'a \<Rightarrow> (RowID list \<Rightarrow> RowID list) \<Rightarrow> 'a buckets \<Rightarrow> 'a buckets" where
  "subscript eq slot k f m =
     (if contains eq m k then modify_bucket eq k f m else insert_bucket slot k (f []) m)"

subsection \<open>The index state\<close>

text \<open>
  \<open>_null_values\<close> is a second hash map, keyed by a boolean, of which the code only ever
  uses the key \<open>true\<close>; \<open>_indexed_chunk_ids\<close> is a \<open>std::set\<close>.
\<close>

record 'a PartialHashIndexImpl =
  index_map :: "'a buckets"
  null_values :: "bool \<rightharpoonup> RowID list"
  indexed_chunk_ids :: "nat fset"

definition empty_index :: "'a PartialHashIndexImpl" where
  "empty_index = \<lparr>index_map = [], null_values = Map.empty, indexed_chunk_ids = {||}\<rparr>"

text \<open>\<open>_null_values[true]\<close> followed by a change of the vector (the subscript creates it).\<close>

definition null_subscript :: "(RowID list \<Rightarrow> RowID list) \<Rightarrow> (bool \<rightharpoonup> RowID list) \<Rightarrow> (bool \<rightharpoonup> RowID list)" where
  "null_subscript f nv = nv(True \<mapsto> f (case nv True of None \<Rightarrow> [] | Some b \<Rightarrow> b))"

subsection \<open>add\<close>

text \<open>The visitor of \<open>add\<close>: one position of the segment of chunk \<open>cid\<close>.\<close>

definition add_position ::
  "'a key_equal \<Rightarrow> 'a placement \<Rightarrow> nat \<Rightarrow> nat \<Rightarrow> 'a option \<Rightarrow>
     'a PartialHashIndexImpl \<Rightarrow> 'a PartialHashIndexImpl" where
  "add_position eq slot cid off cell st =
     (let row_id = RowID cid off in
      case cell of
        None \<Rightarrow>
          (let nv = (if null_values st True = None
                     then null_subscript (\<lambda>_. []) (null_values st) else null_values st)
           in st\<lparr>null_values := null_subscript (\<lambda>b. b @ [row_id]) nv\<rparr>)
      | Some v \<Rightarrow>
          (let m = (if \<not> contains eq (index_map st) v
                    then subscript eq slot v (\<lambda>_. []) (index_map st) else index_map st)
           in st\<lparr>index_map := subscript eq slot v (\<lambda>b. b @ [row_id]) m\<rparr>))"

text \<open>The body of the loop of \<open>add\<close> for one pair of chunk id and chunk.\<close>

definition add_chunk ::
  "'a key_equal \<Rightarrow> 'a placement \<Rightarrow> nat \<Rightarrow> nat \<times> 'a Chunk \<Rightarrow>
     'a PartialHashIndexImpl \<Rightarrow> 'a PartialHashIndexImpl" where
  "add_chunk eq slot column_id chunk st =
     (if fst chunk |\<in>| indexed_chunk_ids st then st
      else
        (let st1 = st\<lparr>indexed_chunk_ids := finsert (fst chunk) (indexed_chunk_ids st)\<rparr>;
             indexed_segment = get_segment (snd chunk) column_id
         in segment_iterate indexed_segment (add_position eq slot (fst chunk)) st1))"

text \<open>
  \<open>add\<close> returns the growth of \<open>_indexed_chunk_ids\<close> and the new state. The difference is
  taken on \<open>size_t\<close> in the source; the set never shrinks inside \<open>add\<close>
  (lemma \<open>add_size_mono\<close> below), so the subtraction never wraps.
\<close>

definition add ::
  "'a key_equal \<Rightarrow> 'a placement \<Rightarrow> (nat \<times> 'a Chunk) list \<Rightarrow> nat \<Rightarrow>
     'a PartialHashIndexImpl \<Rightarrow> nat \<times> 'a PartialHashIndexImpl" where
  "add eq slot chunks_to_index column_id st =
     (let size_before = fcard (indexed_chunk_ids st);
          st' = fold (add_chunk eq slot column_id) chunks_to_index st
      in (fcard (indexed_chunk_ids st') - size_before, st'))"

text \<open>The constructor indexes the given chunks into a fresh index.\<close>

definition new_index ::
  "'a key_equal \<Rightarrow> 'a placement \<Rightarrow> (nat \<times> 'a Chunk) list \<Rightarrow> nat \<Rightarrow> 'a PartialHashIndexImpl" where
  "new_index eq slot chunks_to_index column_id =
     snd (add eq slot chunks_to_index column_id empty_index)"

subsection \<open>remove\<close>

text \<open>
  What the operations can throw: \<open>boost::bad_get\<close> from extracting the wrong type out of a
  variant, \<open>std::out_of_range\<close> from \<open>_map.at\<close>.
\<close>

datatype error = Bad_get | Out_of_range

text \<open>
  The \<open>while\<close> loop over \<open>_map\<close>, with \<open>map_iter\<close> at position \<open>i\<close>. The vector is not taken
  from the iterator but looked up again with \<open>_map.at(map_iter->first)\<close>, which throws when
  no stored key compares equal to the iterator's key; the loop then ends with \<open>Inl\<close> of the
  container as it is at that moment. Otherwise the vector found loses the rows of the
  chunk; when it is empty afterwards, the bucket at the iterator is erased and the iterator
  stays at the position, else it moves on.
\<close>

function remove_loop :: "'a key_equal \<Rightarrow> nat \<Rightarrow> 'a buckets \<Rightarrow> nat \<Rightarrow> 'a buckets + 'a buckets" where
  "remove_loop eq cid m i =
     (if i < length m then
        (let j = find_bucket eq m (fst (m ! i)) in
         if j = length m then Inl m
         else
           (let vals' = filter (\<lambda>row_id. chunk_id row_id \<noteq> cid) (snd (m ! j));
                m' = m[j := (fst (m ! j), vals')]
            in if vals' = [] then remove_loop eq cid (take i m' @ drop (Suc i) m') i
               else remove_loop eq cid m' (Suc i)))
      else Inr m)"
  by pat_completeness auto
termination
  by (relation "measure (\<lambda>(eq, cid, m, i). length m - i)") auto

text \<open>
  The body of the loop of \<open>remove\<close> for one chunk id. The id is erased from
  \<open>_indexed_chunk_ids\<close> before the buckets are visited, so an exception leaves the index
  without the id and with the buckets as far as they were processed.
\<close>

definition remove_chunk ::
  "'a key_equal \<Rightarrow> nat \<Rightarrow> 'a PartialHashIndexImpl \<Rightarrow>
     (error \<times> 'a PartialHashIndexImpl) + 'a PartialHashIndexImpl" where
  "remove_chunk eq cid st =
     (if cid |\<notin>| indexed_chunk_ids st then Inr st
      else
        (let st1 = st\<lparr>indexed_chunk_ids := indexed_chunk_ids st |-| {|cid|}\<rparr> in
         case remove_loop eq cid (index_map st1) 0 of
           Inl m \<Rightarrow> Inl (Out_of_range, st1\<lparr>index_map := m\<rparr>)
         | Inr m \<Rightarrow>
             Inr (st1\<lparr>index_map := m,
                      null_values :=
                        null_subscript (filter (\<lambda>row_id. chunk_id row_id \<noteq> cid))
                          (null_values st1)\<rparr>)))"

text \<open>The \<open>for\<close> loop of \<open>remove\<close>: an exception ends it.\<close>

fun remove_chunks ::
  "'a key_equal \<Rightarrow> nat list \<Rightarrow> 'a PartialHashIndexImpl \<Rightarrow>
     (error \<times> 'a PartialHashIndexImpl) + 'a PartialHashIndexImpl" where
  "remove_chunks eq [] st = Inr st"
| "remove_chunks eq (cid # chunks_to_remove) st =
     (case remove_chunk eq cid st of
        Inl e \<Rightarrow> Inl e
      | Inr st' \<Rightarrow> remove_chunks eq chunks_to_remove st')"

text \<open>
  \<open>remove\<close> returns the shrinkage of \<open>_indexed_chunk_ids\<close> and the new state, or the
  exception together with the state the index is left in.
\<close>

definition remove ::
  "'a key_equal \<Rightarrow> nat list \<Rightarrow> 'a PartialHashIndexImpl \<Rightarrow>
     (error \<times> 'a PartialHashIndexImpl) + (nat \<times> 'a PartialHashIndexImpl)" where
  "remove eq chunks_to_remove st =
     (let size_before = fcard (indexed_chunk_ids st) in
      case remove_chunks eq chunks_to_remove st of
        Inl e \<Rightarrow> Inl e
      | Inr st' \<Rightarrow> Inr (size_before - fcard (indexed_chunk_ids st'), st'))"

subsection \<open>Queries\<close>

text \<open>
  Modelled from the spec: \<open>AllTypeVariant\<close> and \<open>TableIndexIterator\<close> (their declarations
  are not part of the sources at hand). A query value is a variant; it either holds a value
  of the index's data type or a value of another type, and extracting the index's data type
  from the latter fails (\<open>boost::bad_get\<close>). An index iterator walks the row ids of the
  buckets in the container's order; it is modelled by the position of the bucket it stands
  at, the number of buckets being the end position. A range is a pair of iterators.
\<close>

datatype ('a, 'o) AllTypeVariant = Holds 'a | Holds_other 'o

definition boost_get :: "('a, 'o) AllTypeVariant \<Rightarrow> error + 'a" where
  "boost_get v = (case v of Holds x \<Rightarrow> Inr x | Holds_other y \<Rightarrow> Inl Bad_get)"

type_synonym Iterator = nat
type_synonym IteratorPair = "Iterator \<times> Iterator"

definition cbegin :: "'a PartialHashIndexImpl \<Rightarrow> Iterator" where
  "cbegin st = 0"

definition cend :: "'a PartialHashIndexImpl \<Rightarrow> Iterator" where
  "cend st = length (index_map st)"

text \<open>The row ids a range walks over: the buckets from the first position up to the second.\<close>

definition range_rows :: "'a PartialHashIndexImpl \<Rightarrow> IteratorPair \<Rightarrow> RowID list" where
  "range_rows st r = concat (map snd (take (snd r - fst r) (drop (fst r) (index_map st))))"

definition equals ::
  "'a key_equal \<Rightarrow> 'a PartialHashIndexImpl \<Rightarrow> ('a, 'o) AllTypeVariant \<Rightarrow> error + IteratorPair" where
  "equals eq st val =
     (case boost_get val of
        Inl e \<Rightarrow> Inl e
      | Inr v \<Rightarrow>
          (let begin_it = find_bucket eq (index_map st) v in
           if begin_it = length (index_map st)
           then (let end_iter = cend st in Inr (end_iter, end_iter))
           else Inr (begin_it, Suc begin_it)))"

definition not_equals ::
  "'a key_equal \<Rightarrow> 'a PartialHashIndexImpl \<Rightarrow> ('a, 'o) AllTypeVariant \<Rightarrow>
     error + (IteratorPair \<times> IteratorPair)" where
  "not_equals eq st val =
     (case boost_get val of
        Inl e \<Rightarrow> Inl e
      | Inr v \<Rightarrow>
          (let eq_begin = find_bucket eq (index_map st) v;
               eq_end = (if eq_begin \<noteq> length (index_map st) then Suc eq_begin else eq_begin)
           in Inr ((cbegin st, eq_begin), (eq_end, cend st))))"

definition get_indexed_chunk_ids :: "'a PartialHashIndexImpl \<Rightarrow> nat fset" where
  "get_indexed_chunk_ids st = indexed_chunk_ids st"

section \<open>The column materializer\<close>

subsection \<open>Materialized values and subsamples\<close>

text \<open>
  A materialized value is one non-NULL cell with its position (the field \<open>value\<close> of the
  source is \<open>mvalue\<close> here). A materialized segment is a vector of them; the source's
  \<open>uninitialized_vector\<close> differs from a vector only in what it costs to allocate.
\<close>

datatype 'a MaterializedValue = MaterializedValue (row_id: RowID) (mvalue: 'a)

type_synonym 'a MaterializedSegment = "'a MaterializedValue list"

record 'a Subsample =
  samples_to_collect :: "32 word"
  samples :: "'a list"

definition new_Subsample :: "32 word \<Rightarrow> 'a Subsample" where
  "new_Subsample sample_count = \<lparr>samples_to_collect = sample_count, samples = []\<rparr>"

text \<open>The two flags of a \<open>ColumnMaterializer\<close>, \<open>_sort\<close> and \<open>_materialize_null\<close>.\<close>

record ColumnMaterializer =
  cm_sort :: bool
  cm_materialize_null :: bool

subsection \<open>Sampling a materialized segment\<close>

text \<open>
  \<open>segment.size()\<close> is a \<open>size_t\<close>, \<open>samples_to_collect\<close> a \<open>ChunkOffset\<close> (32 bits) and the
  loop counter \<open>sample_count\<close> a \<open>size_t\<close>: the stride and the index are computed on 64-bit
  words, the 32-bit count being widened for the division and the comparison.
\<close>

definition vector_size :: "'b list \<Rightarrow> 64 word" where
  "vector_size xs = of_nat (length xs)"

text \<open>
  The loop of \<open>_gather_samples_from_segment\<close>. The source reads \<open>segment[i]\<close> unchecked; the
  model checks the index and returns \<open>None\<close> for a read outside the segment. The counter
  stays below the widened \<open>samples_to_collect\<close>, so incrementing it never wraps and the loop
  ends.
\<close>

lemma unat_Suc_less:
  fixes k b :: "'w::len word"
  assumes "k < b"
  shows "unat (k + 1) = Suc (unat k)"
proof -
  have "unat k < unat b" using assms by (simp add: word_less_nat_alt)
  moreover have "unat b < 2 ^ LENGTH('w)" by simp
  ultimately have "unat k + 1 < 2 ^ LENGTH('w)" by linarith
  then have "unat k + unat (1 :: 'w word) < 2 ^ LENGTH('w)" by simp
  then have "unat (k + 1) = unat k + unat (1 :: 'w word)" by (simp only: unat_add_lem)
  then show ?thesis by simp
qed

function gather_loop ::
  "'a MaterializedSegment \<Rightarrow> 32 word \<Rightarrow> 64 word \<Rightarrow> 64 word \<Rightarrow> 'a list \<Rightarrow> 'a list option" where
  "gather_loop segment to_collect step_width sample_count collected_samples =
     (if sample_count < ucast to_collect then
        (let i = unat (sample_count * step_width) in
         if i < length segment
         then gather_loop segment to_collect step_width (sample_count + 1)
                (collected_samples @ [mvalue (segment ! i)])
         else None)
      else Some collected_samples)"
  by pat_completeness auto
termination
proof (relation "measure (\<lambda>(segment, to_collect, step_width, sample_count, collected_samples).
         unat (ucast to_collect :: 64 word) - unat sample_count)")
  show "wf (measure (\<lambda>(segment :: 'a MaterializedSegment, to_collect :: 32 word, step_width :: 64 word, sample_count :: 64 word, collected_samples :: 'a list).
         unat (ucast to_collect :: 64 word) - unat sample_count))" by simp
next
  fix segment :: "'a MaterializedSegment" and to_collect :: "32 word" and step_width sample_count :: "64 word"
    and collected_samples :: "'a list" and x
  assume lt: "sample_count < ucast to_collect"
  then have "unat sample_count < unat (ucast to_collect :: 64 word)" by (simp add: word_less_nat_alt)
  moreover have "unat (sample_count + 1) = Suc (unat sample_count)"
    by (rule unat_Suc_less [OF lt])
  ultimately show "((segment, to_collect, step_width, sample_count + 1, collected_samples @ [mvalue (segment ! x)]),
           segment, to_collect, step_width, sample_count, collected_samples)
          \<in> measure (\<lambda>(segment, to_collect, step_width, sample_count, collected_samples).
         unat (ucast to_collect :: 64 word) - unat sample_count)"
    by simp
qed

definition gather_samples_from_segment :: "'a MaterializedSegment \<Rightarrow> 'a Subsample \<Rightarrow> 'a Subsample option" where
  "gather_samples_from_segment segment subsample =
     (let to_collect = samples_to_collect subsample in
      if vector_size segment > 0 \<and> to_collect > 0 then
        (let step_width = vector_size segment div ucast (max 1 to_collect) in
         case gather_loop segment to_collect step_width 0 [] of
           None \<Rightarrow> None
         | Some collected_samples \<Rightarrow>
             Some (subsample\<lparr>samples := samples subsample @ collected_samples\<rparr>))
      else Some subsample)"

subsection \<open>Materializing a chunk\<close>

text \<open>\<open>samples_per_chunk\<close>, the constant of \<open>materialize\<close>.\<close>

definition samples_per_chunk :: "32 word" where
  "samples_per_chunk = 10"

text \<open>
  \<open>std::sort\<close> with the comparator \<open>left.value < right.value\<close>; the algorithm is library
  code. For a comparator that is a strict weak order the C++ standard promises a
  permutation of the input in non-decreasing order and leaves the order of equal values
  open; for any other comparator, such as \<open><\<close> on floating-point values with a NaN among
  them, it promises nothing. The model is the insertion sort that libstdc++ runs on a range
  of at most 16 elements, and sorts longer ranges the same way: each element in turn is
  moved to the front when it is less than the first element (\<open>__insertion_sort\<close>), and is
  otherwise moved towards the front past the elements it is less than, up to the first one
  it is not less than (\<open>__unguarded_linear_insert\<close>, which gets the sorted part in reverse,
  the nearest element first). The lemmas on sorted results use nothing but order and
  permutation.
\<close>

fun unguarded_linear_insert ::
  "('a::ord) MaterializedValue \<Rightarrow> 'a MaterializedSegment \<Rightarrow> 'a MaterializedSegment" where
  "unguarded_linear_insert val [] = [val]"
| "unguarded_linear_insert val (prev # before) =
     (if mvalue val < mvalue prev then prev # unguarded_linear_insert val before
      else val # prev # before)"

definition insertion_step ::
  "('a::ord) MaterializedSegment \<Rightarrow> 'a MaterializedValue \<Rightarrow> 'a MaterializedSegment" where
  "insertion_step sorted_part val =
     (case sorted_part of
        [] \<Rightarrow> [val]
      | first # rest \<Rightarrow>
          if mvalue val < mvalue first then val # sorted_part
          else rev (unguarded_linear_insert val (rev sorted_part)))"

definition std_sort :: "('a::ord) MaterializedSegment \<Rightarrow> 'a MaterializedSegment" where
  "std_sort xs = foldl insertion_step [] xs"

text \<open>The visitor of \<open>_materialize_segment\<close>: one position of the segment of chunk \<open>cid\<close>.\<close>

definition materialize_position ::
  "bool \<Rightarrow> nat \<Rightarrow> nat \<Rightarrow> 'a option \<Rightarrow> 'a MaterializedSegment \<times> RowID list \<Rightarrow> 'a MaterializedSegment \<times> RowID list" where
  "materialize_position materialize_null cid off cell s =
     (let row_id = RowID cid off in
      case cell of
        None \<Rightarrow> (if materialize_null then (fst s, snd s @ [row_id]) else s)
      | Some v \<Rightarrow> (fst s @ [MaterializedValue row_id v], snd s))"

text \<open>
  \<open>_materialize_segment\<close> returns the materialized segment, the null rows after the task
  appended its own, and the subsample after sampling; \<open>None\<close> when sampling read outside the
  segment.
\<close>

definition materialize_segment ::
  "ColumnMaterializer \<Rightarrow> ('a::ord) segment \<Rightarrow> nat \<Rightarrow> RowID list \<Rightarrow> 'a Subsample \<Rightarrow>
     ('a MaterializedSegment \<times> RowID list \<times> 'a Subsample) option" where
  "materialize_segment cm segment cid null_rows_output subsample =
     (let s = segment_iterate segment (materialize_position (cm_materialize_null cm) cid)
                ([], null_rows_output);
          output = (if cm_sort cm then std_sort (fst s) else fst s)
      in case gather_samples_from_segment output subsample of
           None \<Rightarrow> None
         | Some subsample' \<Rightarrow> Some (output, snd s, subsample'))"

subsection \<open>materialize\<close>

text \<open>
  Modelled from the spec: \<open>Table\<close> (not part of the sources at hand) is the list of its
  chunks, \<open>chunk_count\<close> its length and \<open>get_chunk\<close> indexing.

  \<open>materialize\<close> creates one job per chunk and waits for all of them. Each job writes its
  own slot of the output (a vector of pointers, null until the job has run: \<open>None\<close>) and its
  own subsample; only the vector of null rows is shared, so the order of the null rows
  depends on the schedule. The model runs each job when it is scheduled, in the order of
  the chunk ids, which is one of the possible schedules.
\<close>

type_synonym 'a Table = "'a Chunk list"

record 'a materialize_state =
  ms_output :: "'a MaterializedSegment option list"
  ms_null_rows :: "RowID list"
  ms_subsamples :: "'a Subsample list"

text \<open>One round of the loop of \<open>materialize\<close> together with the job it schedules.\<close>

definition materialize_chunk ::
  "ColumnMaterializer \<Rightarrow> ('a::ord) Table \<Rightarrow> nat \<Rightarrow> nat \<Rightarrow> 'a materialize_state \<Rightarrow> 'a materialize_state option" where
  "materialize_chunk cm input column_id cid s =
     (let samples_to_write = min samples_per_chunk (chunk_size (input ! cid));
          subsample = new_Subsample samples_to_write;
          segment = get_segment (input ! cid) column_id
      in case materialize_segment cm segment cid (ms_null_rows s) subsample of
           None \<Rightarrow> None
         | Some (seg, nulls, subsample') \<Rightarrow>
             Some \<lparr>ms_output = (ms_output s)[cid := Some seg], ms_null_rows = nulls,
                   ms_subsamples = ms_subsamples s @ [subsample']\<rparr>)"

function materialize_loop ::
  "ColumnMaterializer \<Rightarrow> ('a::ord) Table \<Rightarrow> nat \<Rightarrow> nat \<Rightarrow> 'a materialize_state \<Rightarrow> 'a materialize_state option" where
  "materialize_loop cm input column_id cid s =
     (if cid < length input then
        (case materialize_chunk cm input column_id cid s of
           None \<Rightarrow> None
         | Some s' \<Rightarrow> materialize_loop cm input column_id (Suc cid) s')
      else Some s)"
  by pat_completeness auto
termination
  by (relation "measure (\<lambda>(cm, input, column_id, cid, s). length input - cid)") auto

definition run_jobs ::
  "ColumnMaterializer \<Rightarrow> ('a::ord) Table \<Rightarrow> nat \<Rightarrow> 'a materialize_state option" where
  "run_jobs cm input column_id =
     materialize_loop cm input column_id 0
       \<lparr>ms_output = replicate (length input) None, ms_null_rows = [], ms_subsamples = []\<rparr>"

text \<open>After the jobs, the subsamples are appended to the gathered samples in chunk order.\<close>

definition materialize ::
  "ColumnMaterializer \<Rightarrow> ('a::ord) Table \<Rightarrow> nat \<Rightarrow>
     ('a MaterializedSegment option list \<times> RowID list \<times> 'a list) option" where
  "materialize cm input column_id =
     (case run_jobs cm input column_id of
        None \<Rightarrow> None
      | Some s \<Rightarrow>
          (let gathered_samples = fold (\<lambda>subsample acc. acc @ samples subsample) (ms_subsamples s) []
           in Some (ms_output s, ms_null_rows s, gathered_samples)))"

section \<open>Vocabulary of the statements\<close>

text \<open>The vector stored under a key, the empty vector when the key has no bucket.\<close>

definition bucket_of :: "'a buckets \<Rightarrow> 'a \<Rightarrow> RowID list" where
  "bucket_of m k = (case map_of m k of None \<Rightarrow> [] | Some b \<Rightarrow> b)"

text \<open>The row ids the null iterators walk over (\<open>null_cbegin\<close> to \<open>null_cend\<close>).\<close>

definition null_positions :: "'a PartialHashIndexImpl \<Rightarrow> RowID list" where
  "null_positions st = (case null_values st True of None \<Rightarrow> [] | Some b \<Rightarrow> b)"

text \<open>No bucket of the container holds an empty vector.\<close>

definition nonempty_buckets :: "'a buckets \<Rightarrow> bool" where
  "nonempty_buckets m = (\<forall>p \<in> set m. snd p \<noteq> [])"

text \<open>\<open>segment_iterate\<close> on the rest of a segment whose first cell has offset \<open>n\<close>.\<close>

definition iterate_from :: "nat \<Rightarrow> 'a segment \<Rightarrow> (nat \<Rightarrow> 'a option \<Rightarrow> 's \<Rightarrow> 's) \<Rightarrow> 's \<Rightarrow> 's" where
  "iterate_from n seg visit s = fold (\<lambda>(off, cell). visit off cell) (enumerate n seg) s"

text \<open>
  The row ids of the cells of a segment that hold \<open>c\<close> (a value, or \<open>None\<close> for NULL), in
  storage order, for the segment of chunk \<open>cid\<close> whose first cell has offset \<open>n\<close>.
\<close>

definition cell_rows :: "nat \<Rightarrow> nat \<Rightarrow> 'a segment \<Rightarrow> 'a option \<Rightarrow> RowID list" where
  "cell_rows cid n seg c = map (\<lambda>p. RowID cid (fst p)) (filter (\<lambda>p. snd p = c) (enumerate n seg))"

text \<open>
  A table gives, for every chunk id, the segment of the indexed column. \<open>rows_of T S c\<close> are
  the rows of the chunks in \<open>S\<close> whose cell is \<open>c\<close>.
\<close>

definition rows_of :: "(nat \<Rightarrow> 'a segment) \<Rightarrow> nat fset \<Rightarrow> 'a option \<Rightarrow> RowID set" where
  "rows_of T S c = {RowID cid off | cid off. cid |\<in>| S \<and> off < length (T cid) \<and> T cid ! off = c}"

text \<open>
  The index agrees with the table on its indexed chunks: keys are unique, no value bucket
  is empty, the bucket of a value holds exactly the rows with that value, each once, and
  the null rows are exactly the NULL cells, each once.
\<close>

definition index_inv :: "(nat \<Rightarrow> 'a segment) \<Rightarrow> 'a PartialHashIndexImpl \<Rightarrow> bool" where
  "index_inv T st \<longleftrightarrow>
     distinct (map fst (index_map st)) \<and>
     nonempty_buckets (index_map st) \<and>
     (\<forall>k. distinct (bucket_of (index_map st) k) \<and>
          set (bucket_of (index_map st) k) = rows_of T (indexed_chunk_ids st) (Some k)) \<and>
     distinct (null_positions st) \<and>
     set (null_positions st) = rows_of T (indexed_chunk_ids st) None \<and>
     null_values st False = None"

text \<open>
  What the loop of \<open>remove\<close> leaves of the buckets when every lookup finds the bucket the
  iterator stands at, and \<open>remove\<close> for one chunk id and for a list of them in that case.
\<close>

fun remove_rows_ok :: "nat \<Rightarrow> 'a buckets \<Rightarrow> 'a buckets" where
  "remove_rows_ok cid [] = []"
| "remove_rows_ok cid ((k, vals) # m) =
     (let vals' = filter (\<lambda>row_id. chunk_id row_id \<noteq> cid) vals in
      if vals' = [] then remove_rows_ok cid m else (k, vals') # remove_rows_ok cid m)"

definition remove_chunk_ok :: "nat \<Rightarrow> 'a PartialHashIndexImpl \<Rightarrow> 'a PartialHashIndexImpl" where
  "remove_chunk_ok cid st =
     (if cid |\<notin>| indexed_chunk_ids st then st
      else st\<lparr>indexed_chunk_ids := indexed_chunk_ids st |-| {|cid|},
              index_map := remove_rows_ok cid (index_map st),
              null_values :=
                null_subscript (filter (\<lambda>row_id. chunk_id row_id \<noteq> cid)) (null_values st)\<rparr>)"

definition remove_ok :: "nat list \<Rightarrow> 'a PartialHashIndexImpl \<Rightarrow> nat \<times> 'a PartialHashIndexImpl" where
  "remove_ok chunks_to_remove st =
     (let size_before = fcard (indexed_chunk_ids st);
          st' = fold remove_chunk_ok chunks_to_remove st
      in (size_before - fcard (indexed_chunk_ids st'), st'))"

text \<open>
  A history of an index: the calls of \<open>add\<close> and \<open>remove\<close> made on it since it was
  empty. Running a history ends at the first exception. A history is over a table when
  every chunk handed to \<open>add\<close> has, at the column being indexed, the table's segment for its
  chunk id.
\<close>

datatype 'a index_op = Add "(nat \<times> 'a Chunk) list" nat | Remove "nat list"

fun apply_op ::
  "'a key_equal \<Rightarrow> 'a placement \<Rightarrow> 'a index_op \<Rightarrow> 'a PartialHashIndexImpl \<Rightarrow>
     (error \<times> 'a PartialHashIndexImpl) + 'a PartialHashIndexImpl" where
  "apply_op eq slot (Add chunks_to_index column_id) st =
     Inr (snd (add eq slot chunks_to_index column_id st))"
| "apply_op eq slot (Remove chunks_to_remove) st =
     (case remove eq chunks_to_remove st of Inl e \<Rightarrow> Inl e | Inr r \<Rightarrow> Inr (snd r))"

fun run_from ::
  "'a key_equal \<Rightarrow> 'a placement \<Rightarrow> 'a index_op list \<Rightarrow> 'a PartialHashIndexImpl \<Rightarrow>
     (error \<times> 'a PartialHashIndexImpl) + 'a PartialHashIndexImpl" where
  "run_from eq slot [] st = Inr st"
| "run_from eq slot (op # ops) st =
     (case apply_op eq slot op st of Inl e \<Rightarrow> Inl e | Inr st' \<Rightarrow> run_from eq slot ops st')"

definition run ::
  "'a key_equal \<Rightarrow> 'a placement \<Rightarrow> 'a index_op list \<Rightarrow>
     (error \<times> 'a PartialHashIndexImpl) + 'a PartialHashIndexImpl" where
  "run eq slot ops = run_from eq slot ops empty_index"

text \<open>The state a history leaves when the keys compare by equality and nothing throws.\<close>

fun apply_op_ok :: "'a placement \<Rightarrow> 'a index_op \<Rightarrow> 'a PartialHashIndexImpl \<Rightarrow> 'a PartialHashIndexImpl" where
  "apply_op_ok slot (Add chunks_to_index column_id) st = snd (add (=) slot chunks_to_index column_id st)"
| "apply_op_ok slot (Remove chunks_to_remove) st = snd (remove_ok chunks_to_remove st)"

definition run_ok :: "'a placement \<Rightarrow> 'a index_op list \<Rightarrow> 'a PartialHashIndexImpl" where
  "run_ok slot ops = fold (apply_op_ok slot) ops empty_index"

fun op_over_table :: "(nat \<Rightarrow> 'a segment) \<Rightarrow> 'a index_op \<Rightarrow> bool" where
  "op_over_table T (Add chunks_to_index column_id) =
     list_all (\<lambda>chunk. get_segment (snd chunk) column_id = T (fst chunk)) chunks_to_index"
| "op_over_table T (Remove chunks_to_remove) = True"

text \<open>
  The scenario of the spec: three chunks holding \<open>{1, 2, NULL}\<close>, \<open>{3, 1, 2}\<close> and
  \<open>{NULL, 3, 1}\<close>; all three are indexed, then chunk 1 is removed. New buckets are placed in
  front of the others.
\<close>

definition scenario_segment :: "nat \<Rightarrow> int segment" where
  "scenario_segment cid =
     (if cid = 0 then [Some 1, Some 2, None]
      else if cid = 1 then [Some 3, Some 1, Some 2]
      else if cid = 2 then [None, Some 3, Some 1]
      else [])"

definition scenario_chunk :: "nat \<Rightarrow> int Chunk" where
  "scenario_chunk cid =
     \<lparr>chunk_size = of_nat (length (scenario_segment cid)), get_segment = (\<lambda>column_id. scenario_segment cid)\<rparr>"

definition scenario_ops :: "int index_op list" where
  "scenario_ops = [Add [(0, scenario_chunk 0), (1, scenario_chunk 1), (2, scenario_chunk 2)] 0, Remove [1]]"

definition first_slot :: "'a placement" where
  "first_slot k ks = 0"

text \<open>A chunk of one row holding the value 1.\<close>

definition one_row_chunk :: "int Chunk" where
  "one_row_chunk = \<lparr>chunk_size = 1, get_segment = (\<lambda>column_id. [Some 1])\<rparr>"

text \<open>
  The values stored in a segment and in a table. The comparison \<open>==\<close> of the data type is
  lawful on a set of values when it is equality there: it is on every set of integers or
  strings, and on a set of floating-point values without NaN.
\<close>

definition segment_values :: "'a segment \<Rightarrow> 'a set" where
  "segment_values seg = {v. Some v \<in> set seg}"

definition table_values :: "(nat \<Rightarrow> 'a segment) \<Rightarrow> 'a set" where
  "table_values T = (\<Union>cid. segment_values (T cid))"

definition lawful_on :: "'a key_equal \<Rightarrow> 'a set \<Rightarrow> bool" where
  "lawful_on eq S = (\<forall>x \<in> S. \<forall>y \<in> S. eq x y \<longleftrightarrow> x = y)"

text \<open>
  The C++ types \<open>float\<close> and \<open>double\<close> as far as the examples need them: NaN and finite
  values (here the integers among them). \<open>==\<close> and \<open><\<close> are false whenever an operand is
  NaN, also between NaN and itself.
\<close>

datatype float_value = NaN | Finite int

definition float_equal :: "float_value key_equal" where
  "float_equal x y = (case x of NaN \<Rightarrow> False | Finite a \<Rightarrow> (case y of NaN \<Rightarrow> False | Finite b \<Rightarrow> a = b))"

instantiation float_value :: ord
begin

definition less_float_value :: "float_value \<Rightarrow> float_value \<Rightarrow> bool" where
  "less_float_value x y = (case x of NaN \<Rightarrow> False | Finite a \<Rightarrow> (case y of NaN \<Rightarrow> False | Finite b \<Rightarrow> a < b))"

definition less_eq_float_value :: "float_value \<Rightarrow> float_value \<Rightarrow> bool" where
  "less_eq_float_value x y = (case x of NaN \<Rightarrow> False | Finite a \<Rightarrow> (case y of NaN \<Rightarrow> False | Finite b \<Rightarrow> a \<le> b))"

instance ..

end

text \<open>
  A chunk of one row holding NaN, and a table of one chunk \<open>{1, NULL, 2, 1}\<close> of
  floating-point values with that chunk.
\<close>

definition nan_chunk :: "float_value Chunk" where
  "nan_chunk = \<lparr>chunk_size = 1, get_segment = (\<lambda>column_id. [Some NaN])\<rparr>"

definition float_segment :: "nat \<Rightarrow> float_value segment" where
  "float_segment cid = (if cid = 0 then [Some (Finite 1), None, Some (Finite 2), Some (Finite 1)] else [])"

definition float_chunk :: "float_value Chunk" where
  "float_chunk = \<lparr>chunk_size = 4, get_segment = (\<lambda>column_id. float_segment 0)\<rparr>"

text \<open>
  The values at the sample positions of a materialized segment for a sample count \<open>c\<close>: the
  element at index \<open>k * (size div max 1 c)\<close> for every \<open>k\<close> below \<open>c\<close>; none for an empty
  segment.
\<close>

definition sample_values :: "'a MaterializedSegment \<Rightarrow> nat \<Rightarrow> 'a list" where
  "sample_values seg c =
     (if seg = [] then [] else map (\<lambda>k. mvalue (seg ! (k * (length seg div max 1 c)))) [0..<c])"

text \<open>
  The non-NULL cells of a segment as materialized values, in storage order, for the segment
  of chunk \<open>cid\<close> whose first cell has offset \<open>n\<close>.
\<close>

fun materialized_from :: "nat \<Rightarrow> nat \<Rightarrow> 'a segment \<Rightarrow> 'a MaterializedSegment" where
  "materialized_from cid n [] = []"
| "materialized_from cid n (None # seg) = materialized_from cid (Suc n) seg"
| "materialized_from cid n (Some v # seg) =
     MaterializedValue (RowID cid n) v # materialized_from cid (Suc n) seg"

text \<open>Every segment of the column has a size that a \<open>size_t\<close> can hold.\<close>

definition segments_fit :: "'a Table \<Rightarrow> nat \<Rightarrow> bool" where
  "segments_fit input column_id = list_all (\<lambda>chunk. length (get_segment chunk column_id) < 2 ^ 64) input"

text \<open>What a materialization task leaves in its output slot and in its subsample.\<close>

definition segment_output :: "ColumnMaterializer \<Rightarrow> nat \<Rightarrow> ('a::ord) segment \<Rightarrow> 'a MaterializedSegment" where
  "segment_output cm cid seg =
     (if cm_sort cm then std_sort (materialized_from cid 0 seg) else materialized_from cid 0 seg)"

definition chunk_output :: "ColumnMaterializer \<Rightarrow> ('a::ord) Table \<Rightarrow> nat \<Rightarrow> nat \<Rightarrow> 'a MaterializedSegment" where
  "chunk_output cm input column_id cid = segment_output cm cid (get_segment (input ! cid) column_id)"

definition chunk_subsample :: "ColumnMaterializer \<Rightarrow> ('a::ord) Table \<Rightarrow> nat \<Rightarrow> nat \<Rightarrow> 'a Subsample" where
  "chunk_subsample cm input column_id cid =
     \<lparr>samples_to_collect = min samples_per_chunk (chunk_size (input ! cid)),
      samples = sample_values (chunk_output cm input column_id cid)
                  (unat (min samples_per_chunk (chunk_size (input ! cid))))\<rparr>"

text \<open>Example tables: a chunk of one NULL, a chunk with a NULL between two values, two chunks in descending order.\<close>

definition null_table :: "int Table" where
  "null_table = [\<lparr>chunk_size = 1, get_segment = (\<lambda>column_id. [None])\<rparr>]"

definition gap_table :: "int Table" where
  "gap_table = [\<lparr>chunk_size = 3, get_segment = (\<lambda>column_id. [Some 1, None, Some 2])\<rparr>]"

definition descending_table :: "int Table" where
  "descending_table =
     [\<lparr>chunk_size = 2, get_segment = (\<lambda>column_id. [Some 4, Some 3])\<rparr>,
      \<lparr>chunk_size = 2, get_segment = (\<lambda>column_id. [Some 2, Some 1])\<rparr>]"

text \<open>A chunk of floating-point values with a NaN among them.\<close>

definition nan_table :: "float_value Table" where
  "nan_table =
     [\<lparr>chunk_size = 4,
       get_segment = (\<lambda>column_id. [Some (Finite 3), Some NaN, Some (Finite 1), Some (Finite 2)])\<rparr>]"

text \<open>
  A materialized segment is in non-decreasing order when no element is less than an
  element before it. The comparison \<open><\<close> of the value type is a strict weak order on a set
  of values when on it nothing is less than itself, \<open><\<close> is transitive, and a value between
  neither of two values is not between them in order either: whenever \<open>x < z\<close>, every \<open>y\<close>
  has \<open>x < y\<close> or \<open>y < z\<close>. This is what \<open>std::sort\<close> requires of its comparator.
\<close>

definition non_decreasing :: "('a::ord) MaterializedSegment \<Rightarrow> bool" where
  "non_decreasing seg = sorted_wrt (\<lambda>left right. \<not> mvalue right < mvalue left) seg"

definition strict_weak_on :: "('a::ord) set \<Rightarrow> bool" where
  "strict_weak_on S \<longleftrightarrow>
     (\<forall>x \<in> S. \<forall>y \<in> S. \<forall>z \<in> S.
        \<not> x < x \<and> (x < y \<longrightarrow> y < z \<longrightarrow> x < z) \<and> (x < z \<longrightarrow> x < y \<or> y < z))"

text \<open>
  The samples as claim C7 words them: \<open>min(samples_per_chunk, segment_size)\<close> of them, the
  element at index \<open>k * (segment_size / sample_count)\<close> for every \<open>k\<close> below the sample count.
\<close>

definition claimed_samples :: "'a MaterializedSegment \<Rightarrow> 'a list" where
  "claimed_samples seg =
     (let sample_count = min (unat samples_per_chunk) (length seg)
      in map (\<lambda>k. mvalue (seg ! (k * (length seg div sample_count)))) [0..<sample_count])"

section \<open>Properties of the partial hash index\<close>

lemma contains_eq: "contains (=) m k \<longleftrightarrow> k \<in> set (map fst m)"
  by (auto simp: contains_def list_ex_iff)


lemma set_insert_at: "set (take i xs @ x # drop i xs) = insert x (set xs)"
proof -
  have "set (take i xs) \<union> set (drop i xs) = set xs"
    by (metis append_take_drop_id set_append)
  then show ?thesis by auto
qed

lemma distinct_insert_at:
  "distinct (take i xs @ x # drop i xs) \<longleftrightarrow> x \<notin> set xs \<and> distinct xs"
proof -
  have "distinct (ys @ x # zs) \<longleftrightarrow> x \<notin> set (ys @ zs) \<and> distinct (ys @ zs)" for ys zs :: "'a list"
    by auto
  from this [of "take i xs" "drop i xs"] show ?thesis
    by (simp only: append_take_drop_id)
qed

lemma keys_insert_bucket_list:
  "map fst (insert_bucket slot k b m) =
     take (min (slot k (map fst m)) (length m)) (map fst m) @ k # drop (min (slot k (map fst m)) (length m)) (map fst m)"
  by (simp add: insert_bucket_def Let_def take_map drop_map)

lemma keys_modify_bucket: "map fst (modify_bucket (=) k f m) = map fst m"
  by (induction m) auto

lemma map_of_modify_bucket:
  "map_of (modify_bucket (=) k f m) = (case map_of m k of None \<Rightarrow> map_of m | Some b \<Rightarrow> (map_of m)(k \<mapsto> f b))"
  by (induction m) (auto split: option.splits)

lemma keys_insert_bucket: "set (map fst (insert_bucket slot k b m)) = insert k (set (map fst m))"
  unfolding keys_insert_bucket_list by (rule set_insert_at)

lemma distinct_insert_bucket:
  "distinct (map fst m) \<Longrightarrow> k \<notin> set (map fst m) \<Longrightarrow> distinct (map fst (insert_bucket slot k b m))"
  unfolding keys_insert_bucket_list by (simp only: distinct_insert_at simp_thms)

lemma set_insert_bucket: "set (insert_bucket slot k b m) = insert (k, b) (set m)"
  unfolding insert_bucket_def Let_def by (rule set_insert_at)

lemma map_of_insert_bucket:
  assumes "distinct (map fst m)" "k \<notin> set (map fst m)"
  shows "map_of (insert_bucket slot k b m) = (map_of m)(k \<mapsto> b)"
proof (rule ext)
  fix x
  have d: "distinct (map fst (insert_bucket slot k b m))"
    using assms by (rule distinct_insert_bucket)
  show "map_of (insert_bucket slot k b m) x = ((map_of m)(k \<mapsto> b)) x"
  proof (cases "((map_of m)(k \<mapsto> b)) x")
    case None
    then have "x \<noteq> k" "x \<notin> set (map fst m)" by (auto simp: map_of_eq_None_iff split: if_splits)
    then have "x \<notin> set (map fst (insert_bucket slot k b m))" by (simp only: keys_insert_bucket) simp
    then have "map_of (insert_bucket slot k b m) x = None"
      by (simp only: map_of_eq_None_iff) simp
    then show ?thesis using None by simp
  next
    case (Some y)
    then have "(x, y) \<in> insert (k, b) (set m)"
      using assms by (auto split: if_splits dest: map_of_SomeD)
    then have "(x, y) \<in> set (insert_bucket slot k b m)" by (simp only: set_insert_bucket)
    then have "map_of (insert_bucket slot k b m) x = Some y" using d by simp
    then show ?thesis using Some by simp
  qed
qed

lemma keys_subscript:
  "set (map fst (subscript (=) slot k f m)) = insert k (set (map fst m))"
proof (cases "contains (=) m k")
  case True
  then show ?thesis by (auto simp: subscript_def keys_modify_bucket contains_eq)
next
  case False
  then show ?thesis by (simp only: subscript_def keys_insert_bucket if_False)
qed

lemma distinct_subscript:
  "distinct (map fst m) \<Longrightarrow> distinct (map fst (subscript (=) slot k f m))"
  by (simp add: subscript_def keys_modify_bucket distinct_insert_bucket contains_eq)

lemma map_of_subscript:
  assumes "distinct (map fst m)"
  shows "map_of (subscript (=) slot k f m) = (map_of m)(k \<mapsto> f (bucket_of m k))"
proof (cases "contains (=) m k")
  case True
  then have "map_of m k \<noteq> None"
    by (simp add: contains_eq map_of_eq_None_iff)
  then obtain b where "map_of m k = Some b" by blast
  then show ?thesis using True by (simp add: subscript_def map_of_modify_bucket bucket_of_def)
next
  case False
  then have n: "k \<notin> set (map fst m)" by (simp add: contains_eq)
  then have "map_of m k = None" by (simp add: map_of_eq_None_iff)
  then show ?thesis using False map_of_insert_bucket [OF assms n]
    by (simp add: subscript_def bucket_of_def)
qed

lemma cell_rows_Nil [simp]: "cell_rows cid n [] c = []"
  by (simp add: cell_rows_def)

lemma cell_rows_Cons:
  "cell_rows cid n (x # seg) c = (if x = c then [RowID cid n] else []) @ cell_rows cid (Suc n) seg c"
  by (simp add: cell_rows_def)

lemma set_cell_rows:
  "set (cell_rows cid 0 seg c) = {RowID cid off | off. off < length seg \<and> seg ! off = c}"
  by (auto simp: cell_rows_def in_set_enumerate_eq image_iff)

lemma distinct_cell_rows: "distinct (cell_rows cid n seg c)"
proof -
  have "distinct (map fst (filter (\<lambda>p. snd p = c) (enumerate n seg)))"
    by (rule distinct_map_filter) simp
  then have "distinct (map (RowID cid) (map fst (filter (\<lambda>p. snd p = c) (enumerate n seg))))"
    by (simp only: distinct_map) (simp add: inj_on_def)
  then show ?thesis by (simp add: cell_rows_def comp_def)
qed

lemma add_position_Some:
  assumes "distinct (map fst (index_map st))"
  shows "distinct (map fst (index_map (add_position (=) slot cid off (Some v) st)))"
    and "map_of (index_map (add_position (=) slot cid off (Some v) st)) =
           (map_of (index_map st))(v \<mapsto> bucket_of (index_map st) v @ [RowID cid off])"
    and "null_values (add_position (=) slot cid off (Some v) st) = null_values st"
    and "indexed_chunk_ids (add_position (=) slot cid off (Some v) st) = indexed_chunk_ids st"
proof -
  define m where "m = index_map st"
  define m1 where "m1 = (if \<not> contains (=) m v then subscript (=) slot v (\<lambda>_. []) m else m)"
  have im: "index_map (add_position (=) slot cid off (Some v) st) = subscript (=) slot v (\<lambda>b. b @ [RowID cid off]) m1"
    by (simp add: add_position_def m1_def m_def)
  have d: "distinct (map fst m)" using assms by (simp add: m_def)
  have d1: "distinct (map fst m1)" using d by (simp add: m1_def distinct_subscript)
  have b1: "bucket_of m1 v = bucket_of m v"
  proof (cases "contains (=) m v")
    case True
    then show ?thesis by (simp add: m1_def)
  next
    case False
    then have "map_of m v = None" by (simp add: contains_eq map_of_eq_None_iff)
    then show ?thesis using False d by (simp add: m1_def map_of_subscript bucket_of_def)
  qed
  have mo1: "(map_of m1)(v \<mapsto> x) = (map_of m)(v \<mapsto> x)" for x
    using d by (simp add: m1_def map_of_subscript)
  show "distinct (map fst (index_map (add_position (=) slot cid off (Some v) st)))"
    unfolding im using d1 by (rule distinct_subscript)
  show "map_of (index_map (add_position (=) slot cid off (Some v) st)) =
           (map_of (index_map st))(v \<mapsto> bucket_of (index_map st) v @ [RowID cid off])"
    unfolding im map_of_subscript [OF d1] b1 mo1 by (simp add: m_def)
  show "null_values (add_position (=) slot cid off (Some v) st) = null_values st"
    by (simp add: add_position_def)
  show "indexed_chunk_ids (add_position (=) slot cid off (Some v) st) = indexed_chunk_ids st"
    by (simp add: add_position_def)
qed

lemma add_position_None:
  "index_map (add_position (=) slot cid off None st) = index_map st"
  "null_positions (add_position (=) slot cid off None st) = null_positions st @ [RowID cid off]"
  "null_values (add_position (=) slot cid off None st) False = null_values st False"
  "indexed_chunk_ids (add_position (=) slot cid off None st) = indexed_chunk_ids st"
  by (auto simp: add_position_def null_positions_def null_subscript_def split: option.splits)

lemma add_position_effect:
  assumes "distinct (map fst (index_map st))"
  shows "distinct (map fst (index_map (add_position (=) slot cid off cell st)))"
    and "bucket_of (index_map (add_position (=) slot cid off cell st)) k =
           bucket_of (index_map st) k @ (if cell = Some k then [RowID cid off] else [])"
    and "null_positions (add_position (=) slot cid off cell st) =
           null_positions st @ (if cell = None then [RowID cid off] else [])"
    and "null_values (add_position (=) slot cid off cell st) False = null_values st False"
    and "indexed_chunk_ids (add_position (=) slot cid off cell st) = indexed_chunk_ids st"
    and "nonempty_buckets (index_map st) \<Longrightarrow> nonempty_buckets (index_map (add_position (=) slot cid off cell st))"
proof -
  show "distinct (map fst (index_map (add_position (=) slot cid off cell st)))"
    using assms by (cases cell) (simp_all add: add_position_None add_position_Some)
  show "bucket_of (index_map (add_position (=) slot cid off cell st)) k =
           bucket_of (index_map st) k @ (if cell = Some k then [RowID cid off] else [])"
    using assms by (cases cell) (simp_all add: add_position_None add_position_Some bucket_of_def)
  show "null_positions (add_position (=) slot cid off cell st) =
           null_positions st @ (if cell = None then [RowID cid off] else [])"
    using assms by (cases cell) (simp_all add: add_position_None, simp add: null_positions_def add_position_Some)
  show "null_values (add_position (=) slot cid off cell st) False = null_values st False"
    using assms by (cases cell) (simp_all add: add_position_None add_position_Some)
  show "indexed_chunk_ids (add_position (=) slot cid off cell st) = indexed_chunk_ids st"
    using assms by (cases cell) (simp_all add: add_position_None add_position_Some)
  show "nonempty_buckets (index_map (add_position (=) slot cid off cell st))"
    if ne: "nonempty_buckets (index_map st)"
  proof (cases cell)
    case None
    then show ?thesis using ne by (simp add: add_position_None)
  next
    case (Some v)
    let ?m' = "index_map (add_position (=) slot cid off (Some v) st)"
    have d': "distinct (map fst ?m')" using assms by (rule add_position_Some)
    have "snd p \<noteq> []" if "p \<in> set ?m'" for p
    proof -
      have "map_of ?m' (fst p) = Some (snd p)" using d' that by simp
      then have "((map_of (index_map st))(v \<mapsto> bucket_of (index_map st) v @ [RowID cid off])) (fst p) = Some (snd p)"
        by (simp only: add_position_Some(2) [OF assms])
      then show ?thesis using ne
        by (auto simp: nonempty_buckets_def split: if_splits dest!: map_of_SomeD)
    qed
    then show ?thesis using Some by (simp add: nonempty_buckets_def)
  qed
qed

lemma iterate_from_simps [simp]:
  "iterate_from n [] visit s = s"
  "iterate_from n (x # seg) visit s = iterate_from (Suc n) seg visit (visit n x s)"
  by (simp_all add: iterate_from_def)

lemma segment_iterate_from: "segment_iterate seg visit s = iterate_from 0 seg visit s"
  by (simp add: segment_iterate_def iterate_from_def)

lemma iterate_effect_all:
  "distinct (map fst (index_map st)) \<Longrightarrow>
   distinct (map fst (index_map (iterate_from n seg (add_position (=) slot cid) st))) \<and>
   (\<forall>k. bucket_of (index_map (iterate_from n seg (add_position (=) slot cid) st)) k =
           bucket_of (index_map st) k @ cell_rows cid n seg (Some k)) \<and>
   null_positions (iterate_from n seg (add_position (=) slot cid) st) =
           null_positions st @ cell_rows cid n seg None \<and>
   null_values (iterate_from n seg (add_position (=) slot cid) st) False = null_values st False \<and>
   indexed_chunk_ids (iterate_from n seg (add_position (=) slot cid) st) = indexed_chunk_ids st \<and>
   (nonempty_buckets (index_map st) \<longrightarrow>
           nonempty_buckets (index_map (iterate_from n seg (add_position (=) slot cid) st)))"
proof (induction seg arbitrary: st n)
  case Nil
  then show ?case by simp
next
  case (Cons x seg)
  note e = add_position_effect [OF Cons.prems, of slot cid n x]
  show ?case using Cons.IH [OF e(1), of "Suc n"]
    by (simp add: e cell_rows_Cons)
qed

lemma keys_remove_rows: "set (map fst (remove_rows_ok cid m)) \<subseteq> set (map fst m)"
  by (induction m) (fastforce simp: Let_def split: if_splits)+

lemma distinct_remove_rows: "distinct (map fst m) \<Longrightarrow> distinct (map fst (remove_rows_ok cid m))"
proof (induction m)
  case Nil
  then show ?case by simp
next
  case (Cons p m)
  obtain k vals where p: "p = (k, vals)" by (cases p)
  have "k \<notin> set (map fst (remove_rows_ok cid m))"
    using Cons.prems keys_remove_rows [of cid m] by (auto simp: p)
  then show ?case using Cons by (simp add: p Let_def)
qed

lemma nonempty_remove_rows: "nonempty_buckets (remove_rows_ok cid m)"
  by (induction m) (auto simp: nonempty_buckets_def Let_def split: if_splits)

lemma bucket_of_remove_rows:
  "distinct (map fst m) \<Longrightarrow>
   bucket_of (remove_rows_ok cid m) k = filter (\<lambda>row_id. chunk_id row_id \<noteq> cid) (bucket_of m k)"
proof (induction m)
  case Nil
  then show ?case by (simp add: bucket_of_def)
next
  case (Cons p m)
  obtain k' vals where p: "p = (k', vals)" by (cases p)
  have ih: "bucket_of (remove_rows_ok cid m) k = filter (\<lambda>row_id. chunk_id row_id \<noteq> cid) (bucket_of m k)"
    using Cons by simp
  show ?case
  proof (cases "k' = k")
    case True
    then have "k \<notin> set (map fst m)" using Cons.prems by (simp add: p)
    then have "k \<notin> set (map fst (remove_rows_ok cid m))" using keys_remove_rows [of cid m] by auto
    then have "map_of (remove_rows_ok cid m) k = None" by (simp add: map_of_eq_None_iff)
    then show ?thesis using True by (simp add: p Let_def bucket_of_def)
  next
    case False
    then show ?thesis using ih by (simp add: p Let_def bucket_of_def)
  qed
qed

lemma index_inv_empty: "index_inv T empty_index"
  by (simp add: index_inv_def empty_index_def nonempty_buckets_def bucket_of_def null_positions_def rows_of_def)

lemma rows_of_finsert:
  "rows_of T (finsert cid S) c = rows_of T S c \<union> set (cell_rows cid 0 (T cid) c)"
  by (auto simp: rows_of_def set_cell_rows)

lemma rows_of_fminus:
  "rows_of T (S |-| {|cid|}) c = {r \<in> rows_of T S c. chunk_id r \<noteq> cid}"
  by (auto simp: rows_of_def)

lemma rows_of_chunk_id: "r \<in> rows_of T S c \<Longrightarrow> chunk_id r |\<in>| S"
  by (auto simp: rows_of_def)

lemma cell_rows_chunk_id: "r \<in> set (cell_rows cid n seg c) \<Longrightarrow> chunk_id r = cid"
  by (auto simp: cell_rows_def)

lemma index_inv_add_chunk:
  assumes inv: "index_inv T st" and seg: "get_segment (snd chunk) column_id = T (fst chunk)"
  shows "index_inv T (add_chunk (=) slot column_id chunk st)"
proof (cases "fst chunk |\<in>| indexed_chunk_ids st")
  case True
  then show ?thesis using inv by (simp add: add_chunk_def)
next
  case False
  define cid where "cid = fst chunk"
  define st1 where "st1 = st\<lparr>indexed_chunk_ids := finsert cid (indexed_chunk_ids st)\<rparr>"
  define st' where "st' = iterate_from 0 (T cid) (add_position (=) slot cid) st1"
  have st': "add_chunk (=) slot column_id chunk st = st'"
    using False seg by (simp add: add_chunk_def st'_def st1_def cid_def Let_def segment_iterate_from)
  have d1: "distinct (map fst (index_map st1))" using inv by (simp add: st1_def index_inv_def)
  note e = iterate_effect_all [OF d1, of 0 "T cid" slot cid, folded st'_def]
  have new: "cid |\<notin>| indexed_chunk_ids st" using False by (simp add: cid_def)
  have disj: "rows_of T (indexed_chunk_ids st) c \<inter> set (cell_rows cid 0 (T cid) c') = {}" for c c'
    using new by (auto dest!: rows_of_chunk_id cell_rows_chunk_id)
  have ids: "indexed_chunk_ids st' = finsert cid (indexed_chunk_ids st)"
    using e by (simp add: st1_def)
  have "distinct (map fst (index_map st'))" using e by simp
  moreover have "nonempty_buckets (index_map st')" using e inv by (simp add: st1_def index_inv_def)
  moreover have "distinct (bucket_of (index_map st') k) \<and>
          set (bucket_of (index_map st') k) = rows_of T (indexed_chunk_ids st') (Some k)" for k
  proof -
    have b: "bucket_of (index_map st') k = bucket_of (index_map st) k @ cell_rows cid 0 (T cid) (Some k)"
      using e by (simp add: st1_def)
    have o: "distinct (bucket_of (index_map st) k)"
      "set (bucket_of (index_map st) k) = rows_of T (indexed_chunk_ids st) (Some k)"
      using inv by (simp_all add: index_inv_def)
    show ?thesis unfolding b ids rows_of_finsert using o disj [of "Some k" "Some k"]
      by (simp add: distinct_cell_rows)
  qed
  moreover have "distinct (null_positions st') \<and> set (null_positions st') = rows_of T (indexed_chunk_ids st') None"
  proof -
    have b: "null_positions st' = null_positions st @ cell_rows cid 0 (T cid) None"
      using e by (simp add: st1_def null_positions_def)
    have o: "distinct (null_positions st)"
      "set (null_positions st) = rows_of T (indexed_chunk_ids st) None"
      using inv by (simp_all add: index_inv_def)
    show ?thesis unfolding b ids rows_of_finsert using o disj [of None None]
      by (simp add: distinct_cell_rows)
  qed
  moreover have "null_values st' False = None" using e inv by (simp add: st1_def index_inv_def)
  ultimately show ?thesis unfolding st' by (simp add: index_inv_def)
qed

lemma index_inv_remove_chunk:
  assumes inv: "index_inv T st"
  shows "index_inv T (remove_chunk_ok cid st)"
proof (cases "cid |\<in>| indexed_chunk_ids st")
  case False
  then show ?thesis using inv by (simp add: remove_chunk_ok_def)
next
  case True
  let ?st' = "remove_chunk_ok cid st"
  have d: "distinct (map fst (index_map st))" using inv by (simp add: index_inv_def)
  have m: "index_map ?st' = remove_rows_ok cid (index_map st)"
    and i: "indexed_chunk_ids ?st' = indexed_chunk_ids st |-| {|cid|}"
    and n: "null_positions ?st' = filter (\<lambda>row_id. chunk_id row_id \<noteq> cid) (null_positions st)"
    and f: "null_values ?st' False = null_values st False"
    using True by (simp_all add: remove_chunk_ok_def null_positions_def null_subscript_def)
  show ?thesis unfolding index_inv_def m i n f rows_of_fminus
    using inv d
    by (auto simp: distinct_remove_rows nonempty_remove_rows bucket_of_remove_rows index_inv_def)
qed

lemma indexed_add_position [simp]:
  "indexed_chunk_ids (add_position eq slot cid off cell st) = indexed_chunk_ids st"
  by (cases cell) (simp_all add: add_position_def)

lemma indexed_iterate_from [simp]:
  "indexed_chunk_ids (iterate_from n seg (add_position eq slot cid) st) = indexed_chunk_ids st"
  by (induction seg arbitrary: n st) simp_all

lemma indexed_add_chunk:
  "indexed_chunk_ids (add_chunk eq slot column_id chunk st) = finsert (fst chunk) (indexed_chunk_ids st)"
  by (auto simp: add_chunk_def segment_iterate_from)

lemma add_chunk_skip: "fst chunk |\<in>| indexed_chunk_ids st \<Longrightarrow> add_chunk eq slot column_id chunk st = st"
  by (simp add: add_chunk_def)

lemma indexed_fold_add_chunk:
  "indexed_chunk_ids (fold (add_chunk eq slot column_id) chunks st) =
     indexed_chunk_ids st |\<union>| fset_of_list (map fst chunks)"
  by (induction chunks arbitrary: st) (auto simp: indexed_add_chunk)

lemma fold_add_chunk_skip:
  "fst ` set chunks \<subseteq> fset (indexed_chunk_ids st) \<Longrightarrow> fold (add_chunk eq slot column_id) chunks st = st"
  by (induction chunks arbitrary: st) (auto simp: add_chunk_skip)

lemma fcard_funion_diff: "fcard (A |\<union>| B) - fcard A = fcard (B |-| A)"
proof -
  have "A |\<union>| B = A |\<union>| (B |-| A)" by auto
  moreover have "fcard (A |\<union>| (B |-| A)) = fcard A + fcard (B |-| A)"
    by (rule fcard_funion_disjoint) auto
  ultimately show ?thesis by simp
qed

lemma fcard_fminus_diff: "fcard A - fcard (A |-| B) = fcard (A |\<inter>| B)"
proof -
  have "A = (A |-| B) |\<union>| (A |\<inter>| B)" by auto
  moreover have "fcard ((A |-| B) |\<union>| (A |\<inter>| B)) = fcard (A |-| B) + fcard (A |\<inter>| B)"
    by (rule fcard_funion_disjoint) auto
  ultimately have "fcard A = fcard (A |-| B) + fcard (A |\<inter>| B)" by simp
  then show ?thesis by simp
qed

lemma add_count:
  "fst (add eq slot chunks column_id st) = fcard (fset_of_list (map fst chunks) |-| indexed_chunk_ids st)"
  by (simp add: add_def Let_def indexed_fold_add_chunk fcard_funion_diff)

lemma add_size_mono:
  "fcard (indexed_chunk_ids st) \<le> fcard (indexed_chunk_ids (snd (add eq slot chunks column_id st)))"
  by (simp add: add_def Let_def indexed_fold_add_chunk fcard_mono)

lemma indexed_remove_chunk:
  "indexed_chunk_ids (remove_chunk_ok cid st) = indexed_chunk_ids st |-| {|cid|}"
  by (auto simp: remove_chunk_ok_def)

lemma remove_chunk_skip: "cid |\<notin>| indexed_chunk_ids st \<Longrightarrow> remove_chunk_ok cid st = st"
  by (simp add: remove_chunk_ok_def)

lemma indexed_fold_remove_chunk:
  "indexed_chunk_ids (fold remove_chunk_ok ids st) = indexed_chunk_ids st |-| fset_of_list ids"
  by (induction ids arbitrary: st) (auto simp: indexed_remove_chunk)

lemma fold_remove_chunk_skip:
  "set ids \<inter> fset (indexed_chunk_ids st) = {} \<Longrightarrow> fold remove_chunk_ok ids st = st"
  by (induction ids arbitrary: st) (auto simp: remove_chunk_skip)

lemma fold_remove_chunk_filter:
  "indexed_chunk_ids st |\<subseteq>| S \<Longrightarrow>
   fold remove_chunk_ok (filter (\<lambda>c. c |\<in>| S) ids) st = fold remove_chunk_ok ids st"
proof (induction ids arbitrary: st)
  case Nil
  then show ?case by simp
next
  case (Cons c ids)
  show ?case
  proof (cases "c |\<in>| S")
    case True
    have "indexed_chunk_ids (remove_chunk_ok c st) |\<subseteq>| S"
      using Cons.prems by (auto simp: indexed_remove_chunk)
    then show ?thesis using True Cons.IH by simp
  next
    case False
    then have "c |\<notin>| indexed_chunk_ids st" using Cons.prems by auto
    then show ?thesis using False Cons by (simp add: remove_chunk_skip)
  qed
qed

lemma remove_count:
  "fst (remove_ok ids st) = fcard (indexed_chunk_ids st |\<inter>| fset_of_list ids)"
  by (simp add: remove_ok_def Let_def indexed_fold_remove_chunk fcard_fminus_diff)

lemma remove_size_mono:
  "fcard (indexed_chunk_ids (snd (remove_ok ids st))) \<le> fcard (indexed_chunk_ids st)"
  by (auto simp: remove_ok_def Let_def indexed_fold_remove_chunk intro!: fcard_mono)

lemma index_inv_fold_add_chunk:
  "index_inv T st \<Longrightarrow> \<forall>p \<in> set chunks. get_segment (snd p) column_id = T (fst p) \<Longrightarrow>
   index_inv T (fold (add_chunk (=) slot column_id) chunks st)"
  by (induction chunks arbitrary: st) (simp_all add: index_inv_add_chunk)

lemma index_inv_fold_remove_chunk:
  "index_inv T st \<Longrightarrow> index_inv T (fold remove_chunk_ok ids st)"
  by (induction ids arbitrary: st) (simp_all add: index_inv_remove_chunk)

lemma find_bucket_le: "find_bucket (=) m k \<le> length m"
  by (induction m) auto

lemma find_bucket_absent: "find_bucket (=) m k = length m \<longleftrightarrow> k \<notin> set (map fst m)"
proof (induction m)
  case Nil
  then show ?case by simp
next
  case (Cons p m)
  then show ?case by (cases p) auto
qed

lemma find_bucket_present:
  "k \<in> set (map fst m) \<Longrightarrow> find_bucket (=) m k < length m \<and> m ! find_bucket (=) m k = (k, bucket_of m k)"
proof (induction m)
  case Nil
  then show ?case by simp
next
  case (Cons p m)
  then show ?case by (cases p) (auto simp: bucket_of_def)
qed

lemma bucket_of_absent: "k \<notin> set (map fst m) \<Longrightarrow> bucket_of m k = []"
  by (simp add: bucket_of_def map_of_eq_None_iff [THEN iffD2])

lemma range_rows_bucket:
  "i < length (index_map st) \<Longrightarrow> range_rows st (i, Suc i) = snd (index_map st ! i)"
  by (simp add: range_rows_def take_Suc_conv_app_nth hd_drop_conv_nth take_Suc)

lemma range_rows_empty [simp]: "range_rows st (i, i) = []"
  by (simp add: range_rows_def)

lemma range_rows_all: "range_rows st (cbegin st, cend st) = concat (map snd (index_map st))"
  by (simp add: range_rows_def cbegin_def cend_def)

lemma range_rows_prefix: "range_rows st (0, i) = concat (map snd (take i (index_map st)))"
  by (simp add: range_rows_def)

lemma range_rows_suffix:
  "range_rows st (i, length (index_map st)) = concat (map snd (drop i (index_map st)))"
  by (simp add: range_rows_def)

lemma equals_Holds:
  "equals (=) st (Holds v) =
     Inr (if contains (=) (index_map st) v
          then (find_bucket (=) (index_map st) v, Suc (find_bucket (=) (index_map st) v))
          else (cend st, cend st))"
  by (simp add: equals_def boost_get_def contains_eq find_bucket_absent Let_def)

lemma not_equals_Holds:
  "not_equals (=) st (Holds v) =
     Inr ((cbegin st, find_bucket (=) (index_map st) v),
          (if contains (=) (index_map st) v then Suc (find_bucket (=) (index_map st) v) else cend st, cend st))"
  by (simp add: not_equals_def boost_get_def contains_eq find_bucket_absent Let_def cend_def)

lemma equals_rows:
  "\<exists>r. equals (=) st (Holds v) = Inr r \<and> range_rows st r = bucket_of (index_map st) v"
proof (cases "contains (=) (index_map st) v")
  case True
  then have "v \<in> set (map fst (index_map st))" by (simp add: contains_eq)
  from find_bucket_present [OF this] show ?thesis using True
    by (simp add: equals_Holds range_rows_bucket)
next
  case False
  then show ?thesis by (simp add: equals_Holds contains_eq bucket_of_absent)
qed

lemma partition_rows:
  "\<exists>e n1 n2. equals (=) st (Holds v) = Inr e \<and> not_equals (=) st (Holds v) = Inr (n1, n2) \<and>
     n1 = (cbegin st, fst e) \<and> n2 = (snd e, cend st) \<and>
     range_rows st n1 @ range_rows st e @ range_rows st n2 = range_rows st (cbegin st, cend st)"
proof (cases "contains (=) (index_map st) v")
  case True
  define i where "i = find_bucket (=) (index_map st) v"
  have i: "i < length (index_map st)"
    using True find_bucket_present [of v "index_map st"] by (simp add: contains_eq i_def)
  have "take i (index_map st) @ index_map st ! i # drop (Suc i) (index_map st) = index_map st"
    using i by (simp add: id_take_nth_drop [symmetric])
  then have "concat (map snd (take i (index_map st) @ index_map st ! i # drop (Suc i) (index_map st)))
      = concat (map snd (index_map st))" by simp
  then show ?thesis using True i
    by (simp add: equals_Holds not_equals_Holds i_def [symmetric] range_rows_bucket range_rows_all
        cbegin_def range_rows_prefix cend_def range_rows_suffix)
next
  case False
  then have "find_bucket (=) (index_map st) v = length (index_map st)"
    by (simp add: contains_eq find_bucket_absent)
  then show ?thesis using False
    by (simp add: equals_Holds not_equals_Holds range_rows_all cbegin_def cend_def range_rows_prefix)
qed

lemma snd_add: "snd (add eq slot chunks column_id st) = fold (add_chunk eq slot column_id) chunks st"
  by (simp add: add_def Let_def)

lemma snd_remove: "snd (remove_ok ids st) = fold remove_chunk_ok ids st"
  by (simp add: remove_ok_def Let_def)

lemma index_inv_apply_op:
  "index_inv T st \<Longrightarrow> op_over_table T op \<Longrightarrow> index_inv T (apply_op_ok slot op st)"
proof (cases op)
  case (Add chunks column_id)
  assume "index_inv T st" "op_over_table T op"
  then show ?thesis using Add
    by (simp add: snd_add index_inv_fold_add_chunk list_all_iff)
next
  case (Remove ids)
  assume "index_inv T st"
  then show ?thesis using Remove by (simp add: snd_remove index_inv_fold_remove_chunk)
qed

lemma index_inv_fold_apply_op:
  "index_inv T st \<Longrightarrow> list_all (op_over_table T) ops \<Longrightarrow> index_inv T (fold (apply_op_ok slot) ops st)"
  by (induction ops arbitrary: st) (simp_all add: index_inv_apply_op)

lemma index_inv_run: "list_all (op_over_table T) ops \<Longrightarrow> index_inv T (run_ok slot ops)"
  unfolding run_ok_def by (rule index_inv_fold_apply_op [OF index_inv_empty])

lemma index_inv_entry:
  assumes "index_inv T st" "(k, b) \<in> set (index_map st)"
  shows "bucket_of (index_map st) k = b" "b \<noteq> []" "distinct b"
    "set b = rows_of T (indexed_chunk_ids st) (Some k)"
proof -
  have d: "distinct (map fst (index_map st))" using assms(1) by (simp add: index_inv_def)
  show b: "bucket_of (index_map st) k = b"
    using d assms(2) by (simp add: bucket_of_def)
  show "b \<noteq> []" using assms by (auto simp: index_inv_def nonempty_buckets_def)
  show "distinct b" "set b = rows_of T (indexed_chunk_ids st) (Some k)"
    using assms(1) b by (auto simp: index_inv_def)
qed

lemma rows_of_disjoint: "c \<noteq> c' \<Longrightarrow> rows_of T S c \<inter> rows_of T S c' = {}"
  by (auto simp: rows_of_def)

lemma index_inv_distinct_all:
  assumes inv: "index_inv T st"
  shows "distinct (concat (map snd (index_map st)))"
proof (rule distinct_concat)
  have d: "distinct (map fst (index_map st))" using inv by (simp add: index_inv_def)
  have same: "p = q" if p: "p \<in> set (index_map st)" and q: "q \<in> set (index_map st)"
    and s: "set (snd p) \<inter> set (snd q) \<noteq> {}" for p q
  proof -
    obtain k b where pk: "p = (k, b)" by (cases p)
    obtain k' b' where qk: "q = (k', b')" by (cases q)
    note ep = index_inv_entry [OF inv p [unfolded pk]]
    note eq = index_inv_entry [OF inv q [unfolded qk]]
    have "k = k'"
      using s rows_of_disjoint [of "Some k" "Some k'" T "indexed_chunk_ids st"]
      by (auto simp: pk qk ep(4) eq(4))
    then have "b = b'" using ep(1) eq(1) by simp
    then show ?thesis using \<open>k = k'\<close> by (simp add: pk qk)
  qed
  have ne: "set (snd p) \<noteq> {}" if "p \<in> set (index_map st)" for p
    using inv that by (auto simp: index_inv_def nonempty_buckets_def)
  show "distinct (map snd (index_map st))"
  proof (simp only: distinct_map, intro conjI inj_onI)
    show "distinct (index_map st)" using d by (simp add: distinct_map)
  next
    fix p q assume p: "p \<in> set (index_map st)" and q: "q \<in> set (index_map st)" and e: "snd p = snd q"
    have "set (snd p) \<inter> set (snd q) \<noteq> {}" using ne [OF p] e by simp
    then show "p = q" by (rule same [OF p q])
  qed
  show "distinct ys" if ys: "ys \<in> set (map snd (index_map st))" for ys
  proof -
    obtain k where "(k, ys) \<in> set (index_map st)" using ys by auto
    from index_inv_entry(3) [OF inv this] show ?thesis .
  qed
  show "set ys \<inter> set zs = {}"
    if ys: "ys \<in> set (map snd (index_map st))" and zs: "zs \<in> set (map snd (index_map st))"
      and neq: "ys \<noteq> zs" for ys zs
  proof -
    obtain k where k: "(k, ys) \<in> set (index_map st)" using ys by auto
    obtain k' where k': "(k', zs) \<in> set (index_map st)" using zs by auto
    show ?thesis using same [OF k k'] neq by auto
  qed
qed


lemmas index_eval_defs = run_ok_def add_def remove_ok_def add_chunk_def remove_chunk_ok_def empty_index_def
  segment_iterate_def add_position_def subscript_def contains_eq insert_bucket_def
  null_subscript_def scenario_ops_def scenario_chunk_def scenario_segment_def first_slot_def Let_def

lemma scenario_index_map:
  "index_map (run_ok first_slot scenario_ops) = [(3, [RowID 2 1]), (2, [RowID 0 1]), (1, [RowID 0 0, RowID 2 2])]"
  by (simp add: index_eval_defs)

lemma scenario_indexed: "indexed_chunk_ids (run_ok first_slot scenario_ops) = {|0, 2|}"
  by (simp add: index_eval_defs) auto

text \<open>
  Without a table given in advance: the index agrees with the data its indexed chunks had
  when they were last added, so every reachable state satisfies the invariant for some table.
\<close>

lemma rows_of_cong:
  assumes "\<And>c. c |\<in>| S \<Longrightarrow> T c = T' c"
  shows "rows_of T S x = rows_of T' S x"
  using assms by (auto simp: rows_of_def)

lemma index_inv_cong:
  assumes "\<And>c. c |\<in>| indexed_chunk_ids st \<Longrightarrow> T c = T' c" and "index_inv T st"
  shows "index_inv T' st"
proof -
  have "rows_of T (indexed_chunk_ids st) x = rows_of T' (indexed_chunk_ids st) x" for x
    using assms(1) by (rule rows_of_cong)
  then show ?thesis using assms(2) by (simp add: index_inv_def)
qed

lemma index_inv_add_chunk_any:
  assumes "index_inv T st"
  shows "\<exists>T'. index_inv T' (add_chunk (=) slot column_id chunk st)"
proof (cases "fst chunk |\<in>| indexed_chunk_ids st")
  case True
  then show ?thesis using assms by (auto simp: add_chunk_skip)
next
  case False
  define T' where "T' = T(fst chunk := get_segment (snd chunk) column_id)"
  have "T c = T' c" if "c |\<in>| indexed_chunk_ids st" for c
    using that False by (auto simp: T'_def)
  then have "index_inv T' st" using assms by (rule index_inv_cong)
  moreover have "get_segment (snd chunk) column_id = T' (fst chunk)" by (simp add: T'_def)
  ultimately have "index_inv T' (add_chunk (=) slot column_id chunk st)"
    by (rule index_inv_add_chunk)
  then show ?thesis by blast
qed

lemma index_inv_fold_add_chunk_any:
  "index_inv T st \<Longrightarrow> \<exists>T'. index_inv T' (fold (add_chunk (=) slot column_id) chunks st)"
proof (induction chunks arbitrary: T st)
  case Nil
  then show ?case by auto
next
  case (Cons chunk chunks)
  from index_inv_add_chunk_any [OF Cons.prems]
  obtain T1 where "index_inv T1 (add_chunk (=) slot column_id chunk st)" by blast
  from Cons.IH [OF this] show ?case by simp
qed

lemma index_inv_apply_op_any:
  assumes "index_inv T st"
  shows "\<exists>T'. index_inv T' (apply_op_ok slot op st)"
proof (cases op)
  case (Add chunks column_id)
  then show ?thesis using index_inv_fold_add_chunk_any [OF assms] by (simp add: snd_add)
next
  case (Remove ids)
  then show ?thesis using index_inv_fold_remove_chunk [OF assms] by (auto simp: snd_remove)
qed

lemma index_inv_fold_apply_op_any:
  "index_inv T st \<Longrightarrow> \<exists>T'. index_inv T' (fold (apply_op_ok slot) ops st)"
proof (induction ops arbitrary: T st)
  case Nil
  then show ?case by auto
next
  case (Cons op ops)
  from index_inv_apply_op_any [OF Cons.prems]
  obtain T1 where "index_inv T1 (apply_op_ok slot op st)" by blast
  from Cons.IH [OF this] show ?case by simp
qed

lemma index_inv_run_any: "\<exists>T. index_inv T (run_ok slot ops)"
  unfolding run_ok_def by (rule index_inv_fold_apply_op_any [OF index_inv_empty])

subsection \<open>Queries after a history\<close>


lemma run_snoc: "run_ok slot (ops @ [op]) = apply_op_ok slot op (run_ok slot ops)"
  by (simp add: run_ok_def)

lemma equals_rows_inv:
  assumes "index_inv T st"
  shows "\<exists>r. equals (=) st (Holds v :: ('a, 'o) AllTypeVariant) = Inr r \<and>
           set (range_rows st r) = rows_of T (indexed_chunk_ids st) (Some v)"
proof -
  obtain r where "equals (=) st (Holds v :: ('a, 'o) AllTypeVariant) = Inr r"
    "range_rows st r = bucket_of (index_map st) v"
    using equals_rows [of st v] by blast
  then show ?thesis using assms by (auto simp: index_inv_def)
qed

lemma fold_remove_chunk_append_skip:
  "cid |\<notin>| indexed_chunk_ids st \<Longrightarrow>
   fold remove_chunk_ok (ids1 @ cid # ids2) st = fold remove_chunk_ok (ids1 @ ids2) st"
  by (simp add: remove_chunk_skip indexed_fold_remove_chunk)

lemma fold_add_chunk_append_skip:
  "fst chunk |\<in>| indexed_chunk_ids st \<Longrightarrow>
   fold (add_chunk eq slot column_id) (cs1 @ chunk # cs2) st = fold (add_chunk eq slot column_id) (cs1 @ cs2) st"
  by (simp add: add_chunk_skip indexed_fold_add_chunk)

lemma add_all_indexed:
  "fst ` set chunks \<subseteq> fset (indexed_chunk_ids st) \<Longrightarrow> add eq slot chunks column_id st = (0, st)"
  by (simp add: add_def Let_def fold_add_chunk_skip)

lemma remove_none_indexed:
  "set ids \<inter> fset (indexed_chunk_ids st) = {} \<Longrightarrow> remove_ok ids st = (0, st)"
  by (simp add: remove_ok_def Let_def fold_remove_chunk_skip)

lemma run_ok_not_equals:
  assumes "st = run_ok slot ops"
  shows "(\<exists>e n1 n2.
            equals (=) st (Holds v :: ('a, 'o) AllTypeVariant) = Inr e \<and>
            not_equals (=) st (Holds v :: ('a, 'o) AllTypeVariant) = Inr (n1, n2) \<and>
            n1 = (cbegin st, fst e) \<and> n2 = (snd e, cend st) \<and>
            range_rows st n1 @ range_rows st e @ range_rows st n2 = range_rows st (cbegin st, cend st) \<and>
            distinct (range_rows st (cbegin st, cend st)) \<and>
            set (range_rows st n1) \<inter> set (range_rows st e) = {} \<and>
            set (range_rows st n2) \<inter> set (range_rows st e) = {} \<and>
            set (range_rows st n1) \<inter> set (range_rows st n2) = {}) \<and>
         (\<exists>n1 n2.
            not_equals (=) (run_ok first_slot scenario_ops) (Holds 2 :: (int, unit) AllTypeVariant) = Inr (n1, n2) \<and>
            range_rows (run_ok first_slot scenario_ops) n1 = [RowID 2 1] \<and>
            scenario_segment 2 ! 1 = Some 3 \<and>
            range_rows (run_ok first_slot scenario_ops) n2 = [RowID 0 0, RowID 2 2] \<and>
            scenario_segment 0 ! 0 = Some 1 \<and> scenario_segment 2 ! 2 = Some 1)"
proof
  obtain T where inv: "index_inv T st" unfolding assms using index_inv_run_any by blast
  obtain e n1 n2 where q: "equals (=) st (Holds v :: ('a, 'o) AllTypeVariant) = Inr e"
    "not_equals (=) st (Holds v :: ('a, 'o) AllTypeVariant) = Inr (n1, n2)"
    "n1 = (cbegin st, fst e)" "n2 = (snd e, cend st)"
    and cover: "range_rows st n1 @ range_rows st e @ range_rows st n2 = range_rows st (cbegin st, cend st)"
    using partition_rows [of st v] by blast
  have d: "distinct (range_rows st (cbegin st, cend st))"
    unfolding range_rows_all using inv by (rule index_inv_distinct_all)
  then have "distinct (range_rows st n1 @ range_rows st e @ range_rows st n2)"
    by (simp only: cover)
  then have "set (range_rows st n1) \<inter> set (range_rows st e) = {}"
    "set (range_rows st n2) \<inter> set (range_rows st e) = {}"
    "set (range_rows st n1) \<inter> set (range_rows st n2) = {}"
    by auto
  then show "\<exists>e n1 n2.
            equals (=) st (Holds v :: ('a, 'o) AllTypeVariant) = Inr e \<and>
            not_equals (=) st (Holds v :: ('a, 'o) AllTypeVariant) = Inr (n1, n2) \<and>
            n1 = (cbegin st, fst e) \<and> n2 = (snd e, cend st) \<and>
            range_rows st n1 @ range_rows st e @ range_rows st n2 = range_rows st (cbegin st, cend st) \<and>
            distinct (range_rows st (cbegin st, cend st)) \<and>
            set (range_rows st n1) \<inter> set (range_rows st e) = {} \<and>
            set (range_rows st n2) \<inter> set (range_rows st e) = {} \<and>
            set (range_rows st n1) \<inter> set (range_rows st n2) = {}"
    using q cover d by blast
next
  show "\<exists>n1 n2.
            not_equals (=) (run_ok first_slot scenario_ops) (Holds 2 :: (int, unit) AllTypeVariant) = Inr (n1, n2) \<and>
            range_rows (run_ok first_slot scenario_ops) n1 = [RowID 2 1] \<and>
            scenario_segment 2 ! 1 = Some 3 \<and>
            range_rows (run_ok first_slot scenario_ops) n2 = [RowID 0 0, RowID 2 2] \<and>
            scenario_segment 0 ! 0 = Some 1 \<and> scenario_segment 2 ! 2 = Some 1"
    by (simp add: not_equals_Holds range_rows_def scenario_index_map cbegin_def cend_def contains_eq
        scenario_segment_def)
qed

lemma run_ok_readd:
  assumes "list_all (op_over_table T) ops" and "st = run_ok slot ops"
    and "list_all (\<lambda>chunk. get_segment (snd chunk) column_id = T (fst chunk)) chunks"
    and "fst ` set chunks \<subseteq> fset (indexed_chunk_ids st)"
    and "st' = snd (add (=) slot chunks column_id (snd (remove_ok (map fst chunks) st)))"
  shows "(\<exists>r r'. equals (=) st (Holds v :: ('a, 'o) AllTypeVariant) = Inr r \<and>
            equals (=) st' (Holds v :: ('a, 'o) AllTypeVariant) = Inr r' \<and>
            set (range_rows st' r') = set (range_rows st r)) \<and>
         indexed_chunk_ids st' = indexed_chunk_ids st \<and>
         fst (remove_ok ids st) = fcard (indexed_chunk_ids st |\<inter>| fset_of_list ids) \<and>
         indexed_chunk_ids (snd (remove_ok ids st)) = indexed_chunk_ids st |-| fset_of_list ids \<and>
         remove_ok ids st = remove_ok (filter (\<lambda>c. c |\<in>| indexed_chunk_ids st) ids) st \<and>
         fcard (indexed_chunk_ids (snd (remove_ok ids st))) \<le> fcard (indexed_chunk_ids st)"
proof (intro conjI)
  have inv: "index_inv T st" unfolding assms(2) using assms(1) by (rule index_inv_run)
  have st': "st' = run_ok slot ((ops @ [Remove (map fst chunks)]) @ [Add chunks column_id])"
    by (simp only: run_snoc apply_op_ok.simps assms(2) assms(5))
  have "list_all (op_over_table T) ((ops @ [Remove (map fst chunks)]) @ [Add chunks column_id])"
    using assms(1) assms(3) by simp
  then have inv': "index_inv T st'" unfolding st' by (rule index_inv_run)
  have "\<forall>p \<in> set chunks. fst p |\<in>| indexed_chunk_ids st"
    using assms(4) by (simp add: image_subset_iff)
  then have "fset_of_list (map fst chunks) |\<subseteq>| indexed_chunk_ids st"
    by (auto simp: fset_of_list.rep_eq)
  then show ids: "indexed_chunk_ids st' = indexed_chunk_ids st"
    by (auto simp: assms(5) snd_add snd_remove indexed_fold_add_chunk indexed_fold_remove_chunk)
  obtain r where r: "equals (=) st (Holds v :: ('a, 'o) AllTypeVariant) = Inr r"
    "set (range_rows st r) = rows_of T (indexed_chunk_ids st) (Some v)"
    using equals_rows_inv [OF inv] by blast
  obtain r' where r': "equals (=) st' (Holds v :: ('a, 'o) AllTypeVariant) = Inr r'"
    "set (range_rows st' r') = rows_of T (indexed_chunk_ids st') (Some v)"
    using equals_rows_inv [OF inv'] by blast
  show "\<exists>r r'. equals (=) st (Holds v :: ('a, 'o) AllTypeVariant) = Inr r \<and>
            equals (=) st' (Holds v :: ('a, 'o) AllTypeVariant) = Inr r' \<and>
            set (range_rows st' r') = set (range_rows st r)"
    using r r' ids by auto
  show "fst (remove_ok ids st) = fcard (indexed_chunk_ids st |\<inter>| fset_of_list ids)"
    by (rule remove_count)
  show "indexed_chunk_ids (snd (remove_ok ids st)) = indexed_chunk_ids st |-| fset_of_list ids"
    by (simp add: snd_remove indexed_fold_remove_chunk)
  show "remove_ok ids st = remove_ok (filter (\<lambda>c. c |\<in>| indexed_chunk_ids st) ids) st"
    by (simp add: remove_ok_def Let_def fold_remove_chunk_filter)
  show "fcard (indexed_chunk_ids (snd (remove_ok ids st))) \<le> fcard (indexed_chunk_ids st)"
    by (rule remove_size_mono)
qed

subsection \<open>The loop of remove when every lookup succeeds\<close>

text \<open>
  When the stored keys are pairwise distinct and compare by equality, the lookup in the loop
  of \<open>remove\<close> finds the bucket the iterator stands at: the loop does not throw and leaves
  \<open>remove_rows_ok\<close> of the buckets, and a history ends in the state \<open>run_ok\<close>.
\<close>

declare remove_loop.simps [simp del]

lemma find_bucket_self:
  "distinct (map fst m) \<Longrightarrow> i < length m \<Longrightarrow> find_bucket (=) m (fst (m ! i)) = i"
proof (induction m arbitrary: i)
  case Nil
  then show ?case by simp
next
  case (Cons p m)
  obtain k b where p: "p = (k, b)" by (cases p)
  show ?case
  proof (cases i)
    case 0
    then show ?thesis by (simp add: p)
  next
    case (Suc j)
    then have j: "j < length m" using Cons.prems by simp
    then have "fst (m ! j) \<in> set (map fst m)" by (metis length_map nth_map nth_mem)
    then have "k \<noteq> fst (m ! j)" using Cons.prems(1) by (auto simp: p)
    then show ?thesis using Cons.IH [of j] Cons.prems(1) j by (simp add: p Suc)
  qed
qed

lemma remove_rows_ok_step:
  "i < length m \<Longrightarrow>
   remove_rows_ok cid (drop i m) =
     (if filter (\<lambda>row_id. chunk_id row_id \<noteq> cid) (snd (m ! i)) = []
      then remove_rows_ok cid (drop (Suc i) m)
      else (fst (m ! i), filter (\<lambda>row_id. chunk_id row_id \<noteq> cid) (snd (m ! i))) #
             remove_rows_ok cid (drop (Suc i) m))"
proof -
  assume i: "i < length m"
  then have "drop i m = m ! i # drop (Suc i) m" by (simp add: Cons_nth_drop_Suc)
  then show ?thesis by (cases "m ! i") (simp add: Let_def)
qed

lemma remove_loop_ok:
  "distinct (map fst m) \<Longrightarrow> i \<le> length m \<Longrightarrow>
   remove_loop (=) cid m i = Inr (take i m @ remove_rows_ok cid (drop i m))"
proof (induction "length m - i" arbitrary: m i)
  case 0
  then have "i = length m" by simp
  then show ?case by (subst remove_loop.simps) simp
next
  case (Suc n)
  then have i: "i < length m" by simp
  define vals' where "vals' = filter (\<lambda>row_id. chunk_id row_id \<noteq> cid) (snd (m ! i))"
  define m' where "m' = m[i := (fst (m ! i), vals')]"
  have j: "find_bucket (=) m (fst (m ! i)) = i" using Suc.prems(1) i by (rule find_bucket_self)
  have keys': "map fst m' = map fst m"
    using i by (simp add: m'_def map_update list_update_same_conv)
  have unfold: "remove_loop (=) cid m i =
      (if vals' = [] then remove_loop (=) cid (take i m' @ drop (Suc i) m') i
       else remove_loop (=) cid m' (Suc i))"
    using i by (subst remove_loop.simps) (simp add: j Let_def vals'_def m'_def)
  have td: "take i m' = take i m" "drop (Suc i) m' = drop (Suc i) m" by (simp_all add: m'_def)
  show ?case
  proof (cases "vals' = []")
    case True
    define m2 where "m2 = take i m @ drop (Suc i) m"
    have d2: "distinct (map fst m2)"
    proof -
      have "distinct (map fst (take i m @ m ! i # drop (Suc i) m))"
        using Suc.prems(1) i by (simp add: id_take_nth_drop [symmetric])
      then show ?thesis by (simp add: m2_def)
    qed
    have l2: "length m2 = length m - 1" using i by (simp add: m2_def)
    then have "n = length m2 - i" "i \<le> length m2" using Suc.hyps(2) i by simp_all
    from Suc.hyps(1) [OF this(1) d2 this(2)]
    have "remove_loop (=) cid m2 i = Inr (take i m2 @ remove_rows_ok cid (drop i m2))" .
    moreover have "take i m2 = take i m" "drop i m2 = drop (Suc i) m"
      using i by (simp_all add: m2_def)
    ultimately show ?thesis
      using True unfold remove_rows_ok_step [OF i, of cid]
      by (simp add: td m2_def vals'_def)
  next
    case False
    have d': "distinct (map fst m')" using Suc.prems(1) by (simp add: keys')
    have "n = length m' - Suc i" "Suc i \<le> length m'" using Suc.hyps(2) i by (simp_all add: m'_def)
    from Suc.hyps(1) [OF this(1) d' this(2)]
    have "remove_loop (=) cid m' (Suc i) = Inr (take (Suc i) m' @ remove_rows_ok cid (drop (Suc i) m'))" .
    moreover have "take (Suc i) m' = take i m @ [(fst (m ! i), vals')]"
      using i by (simp add: m'_def take_Suc_conv_app_nth)
    ultimately show ?thesis
      using False unfold remove_rows_ok_step [OF i, of cid]
      by (simp add: td vals'_def)
  qed
qed

lemma remove_chunk_ok_eq:
  "distinct (map fst (index_map st)) \<Longrightarrow> remove_chunk (=) cid st = Inr (remove_chunk_ok cid st)"
  by (simp add: remove_chunk_def remove_chunk_ok_def remove_loop_ok Let_def)

lemma distinct_remove_chunk_ok:
  "distinct (map fst (index_map st)) \<Longrightarrow> distinct (map fst (index_map (remove_chunk_ok cid st)))"
  by (simp add: remove_chunk_ok_def distinct_remove_rows)

lemma distinct_fold_remove_chunk_ok:
  "distinct (map fst (index_map st)) \<Longrightarrow>
   distinct (map fst (index_map (fold remove_chunk_ok ids st)))"
  by (induction ids arbitrary: st) (simp_all add: distinct_remove_chunk_ok)

lemma remove_chunks_ok_eq:
  "distinct (map fst (index_map st)) \<Longrightarrow>
   remove_chunks (=) ids st = Inr (fold remove_chunk_ok ids st)"
  by (induction ids arbitrary: st) (simp_all add: remove_chunk_ok_eq distinct_remove_chunk_ok)

lemma remove_ok_eq:
  "distinct (map fst (index_map st)) \<Longrightarrow> remove (=) ids st = Inr (remove_ok ids st)"
  by (simp add: remove_def remove_ok_def remove_chunks_ok_eq Let_def)

lemma distinct_add_chunk:
  assumes "distinct (map fst (index_map st))"
  shows "distinct (map fst (index_map (add_chunk (=) slot column_id chunk st)))"
proof (cases "fst chunk |\<in>| indexed_chunk_ids st")
  case True
  then show ?thesis using assms by (simp add: add_chunk_skip)
next
  case False
  have "distinct (map fst (index_map (st\<lparr>indexed_chunk_ids := finsert (fst chunk) (indexed_chunk_ids st)\<rparr>)))"
    using assms by simp
  from iterate_effect_all [OF this] show ?thesis
    using False by (simp add: add_chunk_def segment_iterate_from Let_def)
qed

lemma distinct_fold_add_chunk:
  "distinct (map fst (index_map st)) \<Longrightarrow>
   distinct (map fst (index_map (fold (add_chunk (=) slot column_id) chunks st)))"
  by (induction chunks arbitrary: st) (simp_all add: distinct_add_chunk)

lemma distinct_apply_op_ok:
  "distinct (map fst (index_map st)) \<Longrightarrow> distinct (map fst (index_map (apply_op_ok slot op st)))"
  by (cases op) (simp_all add: snd_add snd_remove distinct_fold_add_chunk distinct_fold_remove_chunk_ok)

lemma apply_op_ok_eq:
  "distinct (map fst (index_map st)) \<Longrightarrow> apply_op (=) slot op st = Inr (apply_op_ok slot op st)"
  by (cases op) (simp_all add: remove_ok_eq)

lemma run_from_ok_eq:
  "distinct (map fst (index_map st)) \<Longrightarrow>
   run_from (=) slot ops st = Inr (fold (apply_op_ok slot) ops st)"
  by (induction ops arbitrary: st) (simp_all add: apply_op_ok_eq distinct_apply_op_ok)

lemma run_ok_eq: "run (=) slot ops = Inr (run_ok slot ops)"
  by (simp add: run_def run_ok_def run_from_ok_eq empty_index_def)

subsection \<open>Calls that never throw\<close>

text \<open>Facts about \<open>equals\<close> and \<open>remove\<close> that hold for every comparison of keys.\<close>

lemma find_bucket_bound: "find_bucket eq m k \<le> length m"
  by (induction m) auto

lemma find_bucket_end: "find_bucket eq m k = length m \<longleftrightarrow> \<not> contains eq m k"
proof (induction m)
  case Nil
  then show ?case by (simp add: contains_def)
next
  case (Cons p m)
  then show ?case by (cases p) (auto simp: contains_def)
qed

lemma equals_Holds_any:
  "equals eq st (Holds v) =
     Inr (if contains eq (index_map st) v
          then (find_bucket eq (index_map st) v, Suc (find_bucket eq (index_map st) v))
          else (cend st, cend st))"
  by (simp add: equals_def boost_get_def find_bucket_end Let_def)

lemma remove_chunk_skip_any:
  "cid |\<notin>| indexed_chunk_ids st \<Longrightarrow> remove_chunk eq cid st = Inr st"
  by (simp add: remove_chunk_def)

lemma indexed_remove_chunk_any:
  "remove_chunk eq cid st = Inr st' \<Longrightarrow> indexed_chunk_ids st' = indexed_chunk_ids st |-| {|cid|}"
  by (auto simp: remove_chunk_def Let_def split: if_splits sum.splits)

lemma indexed_remove_chunks_any:
  "remove_chunks eq ids st = Inr st' \<Longrightarrow>
   indexed_chunk_ids st' = indexed_chunk_ids st |-| fset_of_list ids"
proof (induction ids arbitrary: st)
  case Nil
  then show ?case by simp
next
  case (Cons cid ids)
  then obtain st1 where 1: "remove_chunk eq cid st = Inr st1" and 2: "remove_chunks eq ids st1 = Inr st'"
    by (auto split: sum.splits)
  from Cons.IH [OF 2] indexed_remove_chunk_any [OF 1] show ?case by auto
qed

lemma remove_chunks_append:
  "remove_chunks eq (ids1 @ ids2) st =
     (case remove_chunks eq ids1 st of Inl e \<Rightarrow> Inl e | Inr st' \<Rightarrow> remove_chunks eq ids2 st')"
  by (induction ids1 arbitrary: st) (simp_all split: sum.splits)

lemma remove_chunks_append_skip:
  assumes "cid |\<notin>| indexed_chunk_ids st"
  shows "remove_chunks eq (ids1 @ cid # ids2) st = remove_chunks eq (ids1 @ ids2) st"
proof (cases "remove_chunks eq ids1 st")
  case (Inl e)
  then show ?thesis by (simp add: remove_chunks_append)
next
  case (Inr st1)
  then have "cid |\<notin>| indexed_chunk_ids st1"
    using assms indexed_remove_chunks_any [OF Inr] by simp
  then show ?thesis using Inr by (simp add: remove_chunks_append remove_chunk_skip_any)
qed

lemma remove_skip_any:
  "cid |\<notin>| indexed_chunk_ids st \<Longrightarrow> remove eq [cid] st = Inr (0, st)"
  by (simp add: remove_def remove_chunk_skip_any)

lemma remove_append_skip_any:
  "cid |\<notin>| indexed_chunk_ids st \<Longrightarrow>
   remove eq (ids1 @ cid # ids2) st = remove eq (ids1 @ ids2) st"
  by (simp add: remove_def remove_chunks_append_skip)

lemma remove_count_any:
  assumes "remove eq ids st = Inr (n, st')"
  shows "n = fcard (indexed_chunk_ids st |\<inter>| fset_of_list ids)"
    and "indexed_chunk_ids st' = indexed_chunk_ids st |-| fset_of_list ids"
proof -
  from assms have r: "remove_chunks eq ids st = Inr st'"
    and n: "n = fcard (indexed_chunk_ids st) - fcard (indexed_chunk_ids st')"
    by (auto simp: remove_def Let_def split: sum.splits)
  show "indexed_chunk_ids st' = indexed_chunk_ids st |-| fset_of_list ids"
    using r by (rule indexed_remove_chunks_any)
  then show "n = fcard (indexed_chunk_ids st |\<inter>| fset_of_list ids)"
    using n by (simp add: fcard_fminus_diff)
qed

subsection \<open>Comparisons that are equality on the keys\<close>

text \<open>
  A comparison that is equality on the stored keys and on the values handed in behaves as
  equality does; over a table the stored keys are values of the table.
\<close>

lemma lawful_find_bucket:
  "lawful_on eq S \<Longrightarrow> set (map fst m) \<subseteq> S \<Longrightarrow> k \<in> S \<Longrightarrow>
   find_bucket eq m k = find_bucket (=) m k"
proof (induction m)
  case Nil
  then show ?case by simp
next
  case (Cons p m)
  then show ?case by (cases p) (auto simp: lawful_on_def)
qed

lemma lawful_contains:
  "lawful_on eq S \<Longrightarrow> set (map fst m) \<subseteq> S \<Longrightarrow> k \<in> S \<Longrightarrow>
   contains eq m k = contains (=) m k"
  using find_bucket_end [of eq m k] find_bucket_end [of "(=)" m k]
  by (simp add: lawful_find_bucket)

lemma lawful_modify_bucket:
  "lawful_on eq S \<Longrightarrow> set (map fst m) \<subseteq> S \<Longrightarrow> k \<in> S \<Longrightarrow>
   modify_bucket eq k f m = modify_bucket (=) k f m"
proof (induction m)
  case Nil
  then show ?case by simp
next
  case (Cons p m)
  then show ?case by (cases p) (auto simp: lawful_on_def)
qed

lemma lawful_subscript:
  "lawful_on eq S \<Longrightarrow> set (map fst m) \<subseteq> S \<Longrightarrow> k \<in> S \<Longrightarrow>
   subscript eq slot k f m = subscript (=) slot k f m"
  by (simp add: subscript_def lawful_contains lawful_modify_bucket)

lemma lawful_add_position:
  assumes "lawful_on eq S" and "set (map fst (index_map st)) \<subseteq> S" and "\<forall>v. cell = Some v \<longrightarrow> v \<in> S"
  shows "add_position eq slot cid off cell st = add_position (=) slot cid off cell st"
    and "set (map fst (index_map (add_position (=) slot cid off cell st))) \<subseteq> S"
proof -
  show "add_position eq slot cid off cell st = add_position (=) slot cid off cell st"
  proof (cases cell)
    case None
    then show ?thesis by (simp add: add_position_def)
  next
    case (Some v)
    then have v: "v \<in> S" using assms(3) by simp
    have k1: "set (map fst (subscript (=) slot v (\<lambda>_. []) (index_map st))) \<subseteq> S"
      using assms(2) v by (simp only: keys_subscript) simp
    show ?thesis
      using assms(1) assms(2) v k1
      by (simp add: add_position_def Some lawful_contains lawful_subscript Let_def)
  qed
  show "set (map fst (index_map (add_position (=) slot cid off cell st))) \<subseteq> S"
  proof (cases cell)
    case None
    then show ?thesis using assms(2) by (simp add: add_position_def)
  next
    case (Some v)
    then have v: "v \<in> S" using assms(3) by simp
    show ?thesis
      using assms(2) v
      by (simp add: add_position_def Some Let_def keys_subscript del: set_map)
  qed
qed

lemma lawful_iterate:
  "lawful_on eq S \<Longrightarrow> set (map fst (index_map st)) \<subseteq> S \<Longrightarrow> segment_values seg \<subseteq> S \<Longrightarrow>
   iterate_from n seg (add_position eq slot cid) st = iterate_from n seg (add_position (=) slot cid) st \<and>
   set (map fst (index_map (iterate_from n seg (add_position (=) slot cid) st))) \<subseteq> S"
proof (induction seg arbitrary: n st)
  case Nil
  then show ?case by simp
next
  case (Cons cell seg)
  have c: "\<forall>v. cell = Some v \<longrightarrow> v \<in> S" using Cons.prems(3) by (auto simp: segment_values_def)
  have s: "segment_values seg \<subseteq> S" using Cons.prems(3) by (auto simp: segment_values_def)
  note p = lawful_add_position [OF Cons.prems(1) Cons.prems(2) c, of slot cid n]
  from Cons.IH [OF Cons.prems(1) p(2) s, of "Suc n"] show ?case by (simp add: p(1))
qed

lemma lawful_add_chunk:
  assumes "lawful_on eq S" and "set (map fst (index_map st)) \<subseteq> S"
    and "segment_values (get_segment (snd chunk) column_id) \<subseteq> S"
  shows "add_chunk eq slot column_id chunk st = add_chunk (=) slot column_id chunk st"
    and "set (map fst (index_map (add_chunk (=) slot column_id chunk st))) \<subseteq> S"
proof -
  have k: "set (map fst (index_map (st\<lparr>indexed_chunk_ids := finsert (fst chunk) (indexed_chunk_ids st)\<rparr>))) \<subseteq> S"
    using assms(2) by simp
  note i = lawful_iterate [OF assms(1) k assms(3), of 0 slot "fst chunk"]
  show "add_chunk eq slot column_id chunk st = add_chunk (=) slot column_id chunk st"
    using i by (simp add: add_chunk_def segment_iterate_from Let_def)
  show "set (map fst (index_map (add_chunk (=) slot column_id chunk st))) \<subseteq> S"
    using i assms(2) by (simp add: add_chunk_def segment_iterate_from Let_def)
qed

lemma lawful_fold_add_chunk:
  "lawful_on eq S \<Longrightarrow> set (map fst (index_map st)) \<subseteq> S \<Longrightarrow>
   \<forall>chunk \<in> set chunks. segment_values (get_segment (snd chunk) column_id) \<subseteq> S \<Longrightarrow>
   fold (add_chunk eq slot column_id) chunks st = fold (add_chunk (=) slot column_id) chunks st \<and>
   set (map fst (index_map (fold (add_chunk (=) slot column_id) chunks st))) \<subseteq> S"
proof (induction chunks arbitrary: st)
  case Nil
  then show ?case by simp
next
  case (Cons chunk chunks)
  have c: "segment_values (get_segment (snd chunk) column_id) \<subseteq> S" using Cons.prems(3) by simp
  have r: "\<forall>chunk \<in> set chunks. segment_values (get_segment (snd chunk) column_id) \<subseteq> S"
    using Cons.prems(3) by simp
  note a = lawful_add_chunk [OF Cons.prems(1) Cons.prems(2) c, of slot]
  from Cons.IH [OF Cons.prems(1) a(2) r] show ?case by (simp add: a(1))
qed

lemma lawful_add:
  "lawful_on eq S \<Longrightarrow> set (map fst (index_map st)) \<subseteq> S \<Longrightarrow>
   \<forall>chunk \<in> set chunks. segment_values (get_segment (snd chunk) column_id) \<subseteq> S \<Longrightarrow>
   add eq slot chunks column_id st = add (=) slot chunks column_id st"
  using lawful_fold_add_chunk [of eq S st chunks column_id slot] by (simp add: add_def)

lemma keys_remove_loop:
  "remove_loop eq cid m i = Inr m2 \<Longrightarrow> set (map fst m2) \<subseteq> set (map fst m)"
proof (induction "length m - i" arbitrary: m i)
  case 0
  then have "\<not> i < length m" by simp
  then show ?case using "0.prems" by (subst (asm) remove_loop.simps) auto
next
  case (Suc n)
  then have i: "i < length m" by simp
  define j where "j = find_bucket eq m (fst (m ! i))"
  define vals' where "vals' = filter (\<lambda>row_id. chunk_id row_id \<noteq> cid) (snd (m ! j))"
  define m' where "m' = m[j := (fst (m ! j), vals')]"
  have jl: "j < length m"
  proof (rule ccontr)
    assume "\<not> j < length m"
    then have "j = length m" using find_bucket_bound [of eq m "fst (m ! i)"] by (simp add: j_def)
    then show False using Suc.prems i
      by (subst (asm) remove_loop.simps) (simp add: j_def [symmetric] Let_def)
  qed
  have keys': "map fst m' = map fst m"
    using jl by (simp add: m'_def map_update list_update_same_conv)
  have unfold: "remove_loop eq cid m i =
      (if vals' = [] then remove_loop eq cid (take i m' @ drop (Suc i) m') i
       else remove_loop eq cid m' (Suc i))"
    using i jl by (subst remove_loop.simps) (simp add: j_def [symmetric] Let_def vals'_def m'_def)
  show ?case
  proof (cases "vals' = []")
    case True
    define m3 where "m3 = take i m' @ drop (Suc i) m'"
    have r: "remove_loop eq cid m3 i = Inr m2" using Suc.prems unfold True by (simp add: m3_def)
    have "n = length m3 - i" using Suc.hyps(2) i by (simp add: m3_def m'_def)
    from Suc.hyps(1) [OF this r] have "set (map fst m2) \<subseteq> set (map fst m3)" .
    moreover have "set (map fst m3) \<subseteq> set (map fst m')"
      by (auto simp: m3_def dest: in_set_takeD in_set_dropD)
    ultimately have "set (map fst m2) \<subseteq> set (map fst m')" by blast
    then show ?thesis by (simp only: keys')
  next
    case False
    have r: "remove_loop eq cid m' (Suc i) = Inr m2" using Suc.prems unfold False by simp
    have "n = length m' - Suc i" using Suc.hyps(2) by (simp add: m'_def)
    from Suc.hyps(1) [OF this r] show ?thesis by (simp only: keys')
  qed
qed

lemma lawful_remove_loop:
  "lawful_on eq S \<Longrightarrow> set (map fst m) \<subseteq> S \<Longrightarrow> remove_loop eq cid m i = remove_loop (=) cid m i"
proof (induction "length m - i" arbitrary: m i)
  case 0
  then have "\<not> i < length m" by simp
  then show ?case by (simp add: remove_loop.simps [of _ cid m i])
next
  case (Suc n)
  then have i: "i < length m" by simp
  then have "fst (m ! i) \<in> S" using Suc.prems(2) by (metis length_map nth_map nth_mem subsetD)
  then have f: "find_bucket eq m (fst (m ! i)) = find_bucket (=) m (fst (m ! i))"
    using Suc.prems by (simp add: lawful_find_bucket)
  define j where "j = find_bucket (=) m (fst (m ! i))"
  define vals' where "vals' = filter (\<lambda>row_id. chunk_id row_id \<noteq> cid) (snd (m ! j))"
  define m' where "m' = m[j := (fst (m ! j), vals')]"
  show ?case
  proof (cases "j = length m")
    case True
    then show ?thesis using i
      by (simp add: remove_loop.simps [of _ cid m i] f j_def [symmetric])
  next
    case False
    then have jl: "j < length m" using find_bucket_bound [of "(=)" m "fst (m ! i)"] by (simp add: j_def)
    have keys': "map fst m' = map fst m"
      using jl by (simp add: m'_def map_update list_update_same_conv)
    have unfold: "remove_loop e cid m i =
        (if vals' = [] then remove_loop e cid (take i m' @ drop (Suc i) m') i
         else remove_loop e cid m' (Suc i))"
      if "find_bucket e m (fst (m ! i)) = j" for e
      using i jl that by (subst remove_loop.simps) (simp add: Let_def vals'_def m'_def)
    have k': "set (map fst m') \<subseteq> S" using Suc.prems(2) by (simp only: keys')
    have k3: "set (map fst (take i m' @ drop (Suc i) m')) \<subseteq> S"
      using k' by (auto dest: in_set_takeD in_set_dropD)
    have n1: "n = length (take i m' @ drop (Suc i) m') - i" using Suc.hyps(2) i by (simp add: m'_def)
    have n2: "n = length m' - Suc i" using Suc.hyps(2) by (simp add: m'_def)
    show ?thesis
      using Suc.hyps(1) [OF n1 Suc.prems(1) k3] Suc.hyps(1) [OF n2 Suc.prems(1) k']
      by (simp add: unfold [of eq, OF f [folded j_def]] unfold [of "(=)", OF j_def [symmetric]])
  qed
qed

lemma lawful_remove_chunk:
  "lawful_on eq S \<Longrightarrow> set (map fst (index_map st)) \<subseteq> S \<Longrightarrow>
   remove_chunk eq cid st = remove_chunk (=) cid st"
  by (simp add: remove_chunk_def lawful_remove_loop Let_def)

lemma keys_remove_chunk:
  "remove_chunk eq cid st = Inr st' \<Longrightarrow>
   set (map fst (index_map st')) \<subseteq> set (map fst (index_map st))"
proof (cases "cid |\<in>| indexed_chunk_ids st")
  case False
  assume "remove_chunk eq cid st = Inr st'"
  then show ?thesis using False by (simp add: remove_chunk_def)
next
  case True
  assume r: "remove_chunk eq cid st = Inr st'"
  then obtain m where m: "remove_loop eq cid (index_map st) 0 = Inr m" and "index_map st' = m"
    using True by (auto simp: remove_chunk_def Let_def split: sum.splits)
  then show ?thesis using keys_remove_loop [OF m] by simp
qed

lemma lawful_remove_chunks:
  "lawful_on eq S \<Longrightarrow> set (map fst (index_map st)) \<subseteq> S \<Longrightarrow>
   remove_chunks eq ids st = remove_chunks (=) ids st"
proof (induction ids arbitrary: st)
  case Nil
  then show ?case by simp
next
  case (Cons cid ids)
  note e = lawful_remove_chunk [OF Cons.prems, of cid]
  show ?case
  proof (cases "remove_chunk (=) cid st")
    case (Inl x)
    then show ?thesis by (simp add: e)
  next
    case (Inr st1)
    then have "set (map fst (index_map st1)) \<subseteq> S"
      using keys_remove_chunk [OF Inr] Cons.prems(2) by blast
    from Cons.IH [OF Cons.prems(1) this] show ?thesis using Inr by (simp add: e)
  qed
qed

lemma lawful_remove:
  "lawful_on eq S \<Longrightarrow> set (map fst (index_map st)) \<subseteq> S \<Longrightarrow> remove eq ids st = remove (=) ids st"
  by (simp add: remove_def lawful_remove_chunks)

lemma keys_in_table:
  assumes "index_inv T st"
  shows "set (map fst (index_map st)) \<subseteq> table_values T"
proof
  fix k assume "k \<in> set (map fst (index_map st))"
  then obtain b where m: "(k, b) \<in> set (index_map st)" by auto
  note e = index_inv_entry [OF assms m]
  from e(2) obtain r where "r \<in> set b" by (cases b) auto
  then have "r \<in> rows_of T (indexed_chunk_ids st) (Some k)" using e(4) by simp
  then obtain cid off where "off < length (T cid)" "T cid ! off = Some k"
    by (auto simp: rows_of_def)
  then have "Some k \<in> set (T cid)" by (metis nth_mem)
  then show "k \<in> table_values T" by (auto simp: table_values_def segment_values_def)
qed

lemma lawful_apply_op:
  assumes l: "lawful_on eq S" and t: "table_values T \<subseteq> S" and inv: "index_inv T st"
    and o: "op_over_table T op"
  shows "apply_op eq slot op st = Inr (apply_op_ok slot op st)"
proof -
  have k: "set (map fst (index_map st)) \<subseteq> S" using keys_in_table [OF inv] t by blast
  have d: "distinct (map fst (index_map st))" using inv by (simp add: index_inv_def)
  show ?thesis
  proof (cases op)
    case (Add chunks column_id)
    have "segment_values (get_segment (snd chunk) column_id) \<subseteq> S" if "chunk \<in> set chunks" for chunk
    proof -
      have "get_segment (snd chunk) column_id = T (fst chunk)"
        using o that by (simp add: Add list_all_iff)
      then show ?thesis using t by (auto simp: table_values_def)
    qed
    then have "\<forall>chunk \<in> set chunks. segment_values (get_segment (snd chunk) column_id) \<subseteq> S" by blast
    from lawful_add [OF l k this] show ?thesis by (simp add: Add)
  next
    case (Remove ids)
    then show ?thesis by (simp add: lawful_remove [OF l k] remove_ok_eq [OF d])
  qed
qed

lemma lawful_run_from:
  "lawful_on eq S \<Longrightarrow> table_values T \<subseteq> S \<Longrightarrow> index_inv T st \<Longrightarrow> list_all (op_over_table T) ops \<Longrightarrow>
   run_from eq slot ops st = Inr (fold (apply_op_ok slot) ops st)"
proof (induction ops arbitrary: st)
  case Nil
  then show ?case by simp
next
  case (Cons op ops)
  have o: "op_over_table T op" and r: "list_all (op_over_table T) ops" using Cons.prems(4) by simp_all
  note a = lawful_apply_op [OF Cons.prems(1) Cons.prems(2) Cons.prems(3) o, of slot]
  have "index_inv T (apply_op_ok slot op st)" using Cons.prems(3) o by (rule index_inv_apply_op)
  from Cons.IH [OF Cons.prems(1) Cons.prems(2) this r] show ?case by (simp add: a)
qed

lemma lawful_run:
  "lawful_on eq S \<Longrightarrow> table_values T \<subseteq> S \<Longrightarrow> list_all (op_over_table T) ops \<Longrightarrow>
   run eq slot ops = Inr (run_ok slot ops)"
  unfolding run_def run_ok_def by (rule lawful_run_from [OF _ _ index_inv_empty])

lemma lawful_equals:
  assumes "lawful_on eq S" and "table_values T \<subseteq> S" and "index_inv T st" and "v \<in> S"
  shows "equals eq st (Holds v) = equals (=) st (Holds v)"
proof -
  have "set (map fst (index_map st)) \<subseteq> S" using keys_in_table [OF assms(3)] assms(2) by blast
  from lawful_find_bucket [OF assms(1) this assms(4)] show ?thesis
    by (simp add: equals_def boost_get_def)
qed

lemma float_table_values: "table_values float_segment \<subseteq> {Finite 1, Finite 2}"
  by (auto simp: table_values_def segment_values_def float_segment_def split: if_splits)

lemma float_lawful: "lawful_on float_equal (insert (Finite 1) (table_values float_segment))"
proof -
  have "lawful_on float_equal {Finite 1, Finite 2}"
    by (simp add: lawful_on_def float_equal_def)
  moreover have "insert (Finite 1) (table_values float_segment) \<subseteq> {Finite 1, Finite 2}"
    using float_table_values by auto
  ultimately show ?thesis unfolding lawful_on_def by blast
qed

lemmas index_run_defs = run_def remove_def remove_chunk_def remove_loop.simps new_index_def

lemma float_run:
  "run float_equal first_slot [Add [(0, float_chunk)] 0] =
     Inr \<lparr>index_map = [(Finite 2, [RowID 0 2]), (Finite 1, [RowID 0 0, RowID 0 3])],
          null_values = [True \<mapsto> [RowID 0 1]], indexed_chunk_ids = {|0|}\<rparr>"
  by (simp add: index_run_defs add_def add_chunk_def empty_index_def segment_iterate_def
      add_position_def subscript_def contains_def insert_bucket_def null_subscript_def
      float_chunk_def float_segment_def float_equal_def first_slot_def)

lemma scenario_run:
  "run (=) first_slot scenario_ops = Inr (run_ok first_slot scenario_ops)"
  by (rule run_ok_eq)

subsection \<open>Claims about the queries\<close>



text \<open>
  Claim C2. On every index reached from the empty index by calls of \<open>add\<close> and \<open>remove\<close>
  (the keys comparing by equality) and for every value \<open>v\<close> of the index's data type, the
  two ranges of \<open>not_equals\<close> run from \<open>cbegin\<close> to where the range of \<open>equals\<close> starts and
  from where it ends to \<open>cend\<close>; the first range, the range of \<open>equals\<close> and the second
  range, in this order, are the full iteration from \<open>cbegin\<close> to \<open>cend\<close>; no row id occurs
  twice in that iteration, so the three ranges are pairwise disjoint. The split follows the
  position of the bucket in the container, not the order of the values: in the scenario of
  the spec, with new buckets placed in front, the range before the bucket of 2 holds the
  row of the larger value 3 and the range after it the rows of the smaller value 1.
\<close>

theorem not_equals_partition:
  "(\<exists>st e n1 n2.
      run (=) slot ops = Inr st \<and>
      equals (=) st (Holds v :: ('a, 'o) AllTypeVariant) = Inr e \<and>
      not_equals (=) st (Holds v :: ('a, 'o) AllTypeVariant) = Inr (n1, n2) \<and>
      n1 = (cbegin st, fst e) \<and> n2 = (snd e, cend st) \<and>
      range_rows st n1 @ range_rows st e @ range_rows st n2 = range_rows st (cbegin st, cend st) \<and>
      distinct (range_rows st (cbegin st, cend st)) \<and>
      set (range_rows st n1) \<inter> set (range_rows st e) = {} \<and>
      set (range_rows st n2) \<inter> set (range_rows st e) = {} \<and>
      set (range_rows st n1) \<inter> set (range_rows st n2) = {}) \<and>
   (\<exists>st n1 n2.
      run (=) first_slot scenario_ops = Inr st \<and>
      not_equals (=) st (Holds 2 :: (int, unit) AllTypeVariant) = Inr (n1, n2) \<and>
      range_rows st n1 = [RowID 2 1] \<and>
      scenario_segment 2 ! 1 = Some 3 \<and>
      range_rows st n2 = [RowID 0 0, RowID 2 2] \<and>
      scenario_segment 0 ! 0 = Some 1 \<and> scenario_segment 2 ! 2 = Some 1)"
proof -
  have r: "run (=) slot ops = Inr (run_ok slot ops)"
    "run (=) first_slot scenario_ops = Inr (run_ok first_slot scenario_ops)"
    by (rule run_ok_eq)+
  note p = run_ok_not_equals [OF refl, of slot ops v]
  from p [THEN conjunct1] p [THEN conjunct2] r show ?thesis by blast
qed

theorem not_equals_partition_witness:
  "(\<exists>st e n1 n2.
      run (=) first_slot scenario_ops = Inr st \<and>
      equals (=) st (Holds 2 :: (int, unit) AllTypeVariant) = Inr e \<and>
      not_equals (=) st (Holds 2 :: (int, unit) AllTypeVariant) = Inr (n1, n2) \<and>
      range_rows st n1 @ range_rows st e @ range_rows st n2 =
        [RowID 2 1, RowID 0 1, RowID 0 0, RowID 2 2] \<and>
      distinct (range_rows st (cbegin st, cend st)))"
proof -
  from not_equals_partition [of first_slot scenario_ops 2, THEN conjunct1]
  obtain st e n1 n2 where st: "run (=) first_slot scenario_ops = Inr st"
    and q: "equals (=) st (Holds 2 :: (int, unit) AllTypeVariant) = Inr e"
      "not_equals (=) st (Holds 2 :: (int, unit) AllTypeVariant) = Inr (n1, n2)"
      "range_rows st n1 @ range_rows st e @ range_rows st n2 = range_rows st (cbegin st, cend st)"
      "distinct (range_rows st (cbegin st, cend st))"
    by blast
  have "st = run_ok first_slot scenario_ops" using st by (simp add: run_ok_eq)
  then have "range_rows st (cbegin st, cend st) = [RowID 2 1, RowID 0 1, RowID 0 0, RowID 2 2]"
    by (simp add: range_rows_all scenario_index_map)
  then show ?thesis using st q by metis
qed

subsection \<open>Claims about add and remove\<close>

text \<open>
  Claim C3. In every index state and for every comparison of keys, \<open>add\<close> with chunks whose
  ids are all indexed already returns 0 and the state it was given, so the results of
  \<open>equals\<close> and \<open>not_equals\<close> are the same; calling \<open>add\<close> a second time with the same
  chunks returns 0 and changes nothing. In general \<open>add\<close> returns the number of chunk ids
  it newly put into \<open>_indexed_chunk_ids\<close>, which afterwards holds the old ids and the ids
  given; the size difference it computes never wraps.
\<close>

theorem add_idempotent:
  "(fst ` set chunks \<subseteq> fset (indexed_chunk_ids st) \<longrightarrow>
      add eq slot chunks column_id st = (0, st) \<and>
      equals eq (snd (add eq slot chunks column_id st)) val = equals eq st val \<and>
      not_equals eq (snd (add eq slot chunks column_id st)) val = not_equals eq st val) \<and>
   add eq slot chunks column_id (snd (add eq slot chunks column_id st)) =
     (0, snd (add eq slot chunks column_id st)) \<and>
   fst (add eq slot chunks column_id st) =
     fcard (fset_of_list (map fst chunks) |-| indexed_chunk_ids st) \<and>
   indexed_chunk_ids (snd (add eq slot chunks column_id st)) =
     indexed_chunk_ids st |\<union>| fset_of_list (map fst chunks) \<and>
   fcard (indexed_chunk_ids st) \<le> fcard (indexed_chunk_ids (snd (add eq slot chunks column_id st)))"
proof (intro conjI impI)
  assume a: "fst ` set chunks \<subseteq> fset (indexed_chunk_ids st)"
  then show s: "add eq slot chunks column_id st = (0, st)" by (rule add_all_indexed)
  show "equals eq (snd (add eq slot chunks column_id st)) val = equals eq st val"
    "not_equals eq (snd (add eq slot chunks column_id st)) val = not_equals eq st val"
    by (simp_all add: s)
next
  have "fst ` set chunks \<subseteq> fset (indexed_chunk_ids (snd (add eq slot chunks column_id st)))"
    by (auto simp: snd_add indexed_fold_add_chunk fset_of_list.rep_eq)
  then show "add eq slot chunks column_id (snd (add eq slot chunks column_id st)) =
     (0, snd (add eq slot chunks column_id st))" by (rule add_all_indexed)
next
  show "fst (add eq slot chunks column_id st) =
     fcard (fset_of_list (map fst chunks) |-| indexed_chunk_ids st)" by (rule add_count)
next
  show "indexed_chunk_ids (snd (add eq slot chunks column_id st)) =
     indexed_chunk_ids st |\<union>| fset_of_list (map fst chunks)"
    by (simp add: snd_add indexed_fold_add_chunk)
next
  show "fcard (indexed_chunk_ids st) \<le> fcard (indexed_chunk_ids (snd (add eq slot chunks column_id st)))"
    by (rule add_size_mono)
qed

theorem add_idempotent_witness:
  "fst ` set [(0, scenario_chunk 0), (2, scenario_chunk 2)]
     \<subseteq> fset (indexed_chunk_ids (run_ok first_slot scenario_ops)) \<and>
   run (=) first_slot scenario_ops = Inr (run_ok first_slot scenario_ops) \<and>
   add (=) first_slot [(0, scenario_chunk 0), (2, scenario_chunk 2)] 0 (run_ok first_slot scenario_ops) =
     (0, run_ok first_slot scenario_ops) \<and>
   fst (add (=) first_slot [(1, scenario_chunk 1), (2, scenario_chunk 2), (1, scenario_chunk 1)] 0
          (run_ok first_slot scenario_ops)) = 1"
proof -
  have h: "fst ` set [(0, scenario_chunk 0), (2, scenario_chunk 2)]
     \<subseteq> fset (indexed_chunk_ids (run_ok first_slot scenario_ops))"
    by (simp add: scenario_indexed)
  have "fset_of_list (map fst [(1, scenario_chunk 1), (2, scenario_chunk 2), (1, scenario_chunk 1)])
      |-| indexed_chunk_ids (run_ok first_slot scenario_ops) = {|1::nat|}"
    by (auto simp: scenario_indexed)
  then have c: "fcard (fset_of_list (map fst [(1, scenario_chunk 1), (2, scenario_chunk 2), (1, scenario_chunk 1)])
      |-| indexed_chunk_ids (run_ok first_slot scenario_ops)) = 1"
    by (simp add: fcard_finsert_if)
  have a: "add (=) first_slot [(0, scenario_chunk 0), (2, scenario_chunk 2)] 0 (run_ok first_slot scenario_ops) =
     (0, run_ok first_slot scenario_ops)"
    using h add_idempotent [where chunks = "[(0, scenario_chunk 0), (2, scenario_chunk 2)]"
        and st = "run_ok first_slot scenario_ops" and slot = first_slot and column_id = 0
        and eq = "(=)"]
    by blast
  have "fst (add (=) first_slot [(1, scenario_chunk 1), (2, scenario_chunk 2), (1, scenario_chunk 1)] 0
          (run_ok first_slot scenario_ops)) =
      fcard (fset_of_list (map fst [(1, scenario_chunk 1), (2, scenario_chunk 2), (1, scenario_chunk 1)])
      |-| indexed_chunk_ids (run_ok first_slot scenario_ops))"
    using add_idempotent [where chunks = "[(1, scenario_chunk 1), (2, scenario_chunk 2), (1, scenario_chunk 1)]"
        and st = "run_ok first_slot scenario_ops" and slot = first_slot and column_id = 0
        and eq = "(=)"]
    by blast
  then have b: "fst (add (=) first_slot [(1, scenario_chunk 1), (2, scenario_chunk 2), (1, scenario_chunk 1)] 0
          (run_ok first_slot scenario_ops)) = 1"
    by (simp only: c)
  show ?thesis using h a b scenario_run by blast
qed

text \<open>
  A column of floating-point values with a NaN in it. \<open>add\<close> of the chunk \<open>{NaN}\<close> leaves two
  buckets with the key NaN, an empty one and one with the row: neither \<open>contains\<close> nor the
  subscript operator finds a key that does not compare equal to itself. \<open>remove\<close> of the
  chunk erases its id and then throws \<open>std::out_of_range\<close> at \<open>_map.at(map_iter->first)\<close>: it
  returns no count, the row stays in its bucket, and the history of \<open>add\<close>, \<open>remove\<close> and
  \<open>add\<close> again ends with the exception.
\<close>

theorem remove_readd_counterexample:
  "list_all (op_over_table (\<lambda>cid. [Some NaN])) [Add [(0, nan_chunk)] 0] \<and>
   run float_equal first_slot [Add [(0, nan_chunk)] 0] =
     Inr \<lparr>index_map = [(NaN, [RowID 0 0]), (NaN, [])], null_values = Map.empty,
          indexed_chunk_ids = {|0|}\<rparr> \<and>
   remove float_equal [0]
       \<lparr>index_map = [(NaN, [RowID 0 0]), (NaN, [])], null_values = Map.empty,
        indexed_chunk_ids = {|0|}\<rparr> =
     Inl (Out_of_range,
          \<lparr>index_map = [(NaN, [RowID 0 0]), (NaN, [])], null_values = Map.empty,
           indexed_chunk_ids = {||}\<rparr>) \<and>
   run float_equal first_slot [Add [(0, nan_chunk)] 0, Remove [0], Add [(0, nan_chunk)] 0] =
     Inl (Out_of_range,
          \<lparr>index_map = [(NaN, [RowID 0 0]), (NaN, [])], null_values = Map.empty,
           indexed_chunk_ids = {||}\<rparr>)"
  by (simp add: index_run_defs add_def add_chunk_def empty_index_def segment_iterate_def
      add_position_def subscript_def contains_def insert_bucket_def null_subscript_def
      nan_chunk_def float_equal_def first_slot_def)

text \<open>
  Claim C4, amended. On an index reached over a table on whose values (and on \<open>v\<close>) the
  comparison \<open>==\<close> of the data type is equality, as it is for integers, strings and
  floating-point values other than NaN, no call throws; removing a set of indexed chunks
  and adding the same chunks again, with the table's data, gives for \<open>v\<close> the same set of
  row ids from \<open>equals\<close>, and the same indexed chunk ids. \<open>remove\<close> returns the number of
  given chunk ids that were indexed, removes exactly those from \<open>_indexed_chunk_ids\<close>, and
  ignores the others: the call equals the call with the unindexed ids left out.
\<close>

theorem remove_readd:
  assumes "lawful_on eq (insert v (table_values T))"
    and "list_all (op_over_table T) ops"
    and "list_all (\<lambda>chunk. get_segment (snd chunk) column_id = T (fst chunk)) chunks"
  shows "\<exists>st. run eq slot ops = Inr st \<and>
     (fst ` set chunks \<subseteq> fset (indexed_chunk_ids st) \<longrightarrow>
        (\<exists>n st1 st' r r'.
           remove eq (map fst chunks) st = Inr (n, st1) \<and>
           st' = snd (add eq slot chunks column_id st1) \<and>
           equals eq st (Holds v :: ('a, 'o) AllTypeVariant) = Inr r \<and>
           equals eq st' (Holds v :: ('a, 'o) AllTypeVariant) = Inr r' \<and>
           set (range_rows st' r') = set (range_rows st r) \<and>
           indexed_chunk_ids st' = indexed_chunk_ids st)) \<and>
     (\<exists>n st1. remove eq ids st = Inr (n, st1) \<and>
        n = fcard (indexed_chunk_ids st |\<inter>| fset_of_list ids) \<and>
        indexed_chunk_ids st1 = indexed_chunk_ids st |-| fset_of_list ids \<and>
        fcard (indexed_chunk_ids st1) \<le> fcard (indexed_chunk_ids st)) \<and>
     remove eq ids st = remove eq (filter (\<lambda>c. c |\<in>| indexed_chunk_ids st) ids) st"
proof -
  define S where "S = insert v (table_values T)"
  define st where "st = run_ok slot ops"
  have l: "lawful_on eq S" using assms(1) by (simp add: S_def)
  have t: "table_values T \<subseteq> S" by (auto simp: S_def)
  have v: "v \<in> S" by (simp add: S_def)
  have run: "run eq slot ops = Inr st" unfolding st_def using l t assms(2) by (rule lawful_run)
  have inv: "index_inv T st" unfolding st_def using assms(2) by (rule index_inv_run)
  have k: "set (map fst (index_map st)) \<subseteq> S" using keys_in_table [OF inv] t by blast
  have d: "distinct (map fst (index_map st))" using inv by (simp add: index_inv_def)
  have rem: "remove eq ids' st = Inr (remove_ok ids' st)" for ids'
    by (simp add: lawful_remove [OF l k] remove_ok_eq [OF d])
  have part1: "\<exists>n st1 st' r r'.
           remove eq (map fst chunks) st = Inr (n, st1) \<and>
           st' = snd (add eq slot chunks column_id st1) \<and>
           equals eq st (Holds v :: ('a, 'o) AllTypeVariant) = Inr r \<and>
           equals eq st' (Holds v :: ('a, 'o) AllTypeVariant) = Inr r' \<and>
           set (range_rows st' r') = set (range_rows st r) \<and>
           indexed_chunk_ids st' = indexed_chunk_ids st"
    if sub: "fst ` set chunks \<subseteq> fset (indexed_chunk_ids st)"
  proof -
    define st1 where "st1 = snd (remove_ok (map fst chunks) st)"
    define st' where "st' = snd (add (=) slot chunks column_id st1)"
    have inv1: "index_inv T st1"
      unfolding st1_def snd_remove using inv by (rule index_inv_fold_remove_chunk)
    have k1: "set (map fst (index_map st1)) \<subseteq> S" using keys_in_table [OF inv1] t by blast
    have "segment_values (get_segment (snd chunk) column_id) \<subseteq> S" if "chunk \<in> set chunks" for chunk
    proof -
      have "get_segment (snd chunk) column_id = T (fst chunk)"
        using assms(3) that by (simp add: list_all_iff)
      then show ?thesis using t by (auto simp: table_values_def)
    qed
    then have c: "\<forall>chunk \<in> set chunks. segment_values (get_segment (snd chunk) column_id) \<subseteq> S"
      by blast
    have a: "add eq slot chunks column_id st1 = add (=) slot chunks column_id st1"
      using l k1 c by (rule lawful_add)
    have "\<forall>p \<in> set chunks. get_segment (snd p) column_id = T (fst p)"
      using assms(3) by (simp add: list_all_iff)
    with inv1 have inv': "index_inv T st'"
      unfolding st'_def snd_add by (rule index_inv_fold_add_chunk)
    note ok = run_ok_readd [OF assms(2) st_def assms(3) sub, of st' v,
        unfolded st1_def [symmetric], OF st'_def]
    from ok obtain r r' where r: "equals (=) st (Holds v :: ('a, 'o) AllTypeVariant) = Inr r"
      "equals (=) st' (Holds v :: ('a, 'o) AllTypeVariant) = Inr r'"
      "set (range_rows st' r') = set (range_rows st r)"
      by blast
    from ok have i: "indexed_chunk_ids st' = indexed_chunk_ids st" by blast
    have "equals eq st (Holds v :: ('a, 'o) AllTypeVariant) =
        equals (=) st (Holds v :: ('a, 'o) AllTypeVariant)"
      using l t inv v by (rule lawful_equals)
    then have e: "equals eq st (Holds v :: ('a, 'o) AllTypeVariant) = Inr r"
      by (simp only: r(1))
    have "equals eq st' (Holds v :: ('a, 'o) AllTypeVariant) =
        equals (=) st' (Holds v :: ('a, 'o) AllTypeVariant)"
      using l t inv' v by (rule lawful_equals)
    then have e': "equals eq st' (Holds v :: ('a, 'o) AllTypeVariant) = Inr r'"
      by (simp only: r(2))
    have "remove eq (map fst chunks) st = Inr (fst (remove_ok (map fst chunks) st), st1)"
      by (simp add: rem st1_def)
    moreover have "st' = snd (add eq slot chunks column_id st1)" by (simp add: st'_def a)
    ultimately show ?thesis using e e' r(3) i by blast
  qed
  have part2: "\<exists>n st1. remove eq ids st = Inr (n, st1) \<and>
        n = fcard (indexed_chunk_ids st |\<inter>| fset_of_list ids) \<and>
        indexed_chunk_ids st1 = indexed_chunk_ids st |-| fset_of_list ids \<and>
        fcard (indexed_chunk_ids st1) \<le> fcard (indexed_chunk_ids st)"
  proof -
    have "remove eq ids st = Inr (fst (remove_ok ids st), snd (remove_ok ids st))"
      by (simp add: rem)
    moreover have "fst (remove_ok ids st) = fcard (indexed_chunk_ids st |\<inter>| fset_of_list ids)"
      by (rule remove_count)
    moreover have "indexed_chunk_ids (snd (remove_ok ids st)) = indexed_chunk_ids st |-| fset_of_list ids"
      by (simp add: snd_remove indexed_fold_remove_chunk)
    moreover have "fcard (indexed_chunk_ids (snd (remove_ok ids st))) \<le> fcard (indexed_chunk_ids st)"
      by (rule remove_size_mono)
    ultimately show ?thesis by blast
  qed
  have part3: "remove eq ids st = remove eq (filter (\<lambda>c. c |\<in>| indexed_chunk_ids st) ids) st"
    by (simp add: rem remove_ok_def Let_def fold_remove_chunk_filter)
  show ?thesis using run part1 part2 part3 by blast
qed

theorem remove_readd_witness:
  "lawful_on float_equal (insert (Finite 1) (table_values float_segment)) \<and>
   list_all (op_over_table float_segment) [Add [(0, float_chunk)] 0] \<and>
   list_all (\<lambda>chunk. get_segment (snd chunk) 0 = float_segment (fst chunk)) [(0, float_chunk)] \<and>
   (\<exists>st. run float_equal first_slot [Add [(0, float_chunk)] 0] = Inr st \<and>
      fst ` set [(0, float_chunk)] \<subseteq> fset (indexed_chunk_ids st) \<and>
      (\<exists>n st1 st' r r'.
           remove float_equal (map fst [(0, float_chunk)]) st = Inr (n, st1) \<and>
           st' = snd (add float_equal first_slot [(0, float_chunk)] 0 st1) \<and>
           equals float_equal st (Holds (Finite 1) :: (float_value, unit) AllTypeVariant) = Inr r \<and>
           equals float_equal st' (Holds (Finite 1) :: (float_value, unit) AllTypeVariant) = Inr r' \<and>
           range_rows st r = [RowID 0 0, RowID 0 3] \<and>
           set (range_rows st' r') = set (range_rows st r) \<and>
           indexed_chunk_ids st' = indexed_chunk_ids st) \<and>
      (\<exists>n st1. remove float_equal [1, 0, 5, 0] st = Inr (n, st1) \<and> n = 1 \<and>
           indexed_chunk_ids st1 = {||}))"
proof -
  have h2: "list_all (op_over_table float_segment) [Add [(0, float_chunk)] 0]"
    by (simp add: float_chunk_def)
  have h3: "list_all (\<lambda>chunk. get_segment (snd chunk) 0 = float_segment (fst chunk)) [(0, float_chunk)]"
    by (simp add: float_chunk_def)
  from remove_readd [OF float_lawful h2 h3, of first_slot "[1, 0, 5, 0]"]
  obtain st where st: "run float_equal first_slot [Add [(0, float_chunk)] 0] = Inr st"
    and a: "fst ` set [(0, float_chunk)] \<subseteq> fset (indexed_chunk_ids st) \<longrightarrow>
        (\<exists>n st1 st' r r'.
           remove float_equal (map fst [(0, float_chunk)]) st = Inr (n, st1) \<and>
           st' = snd (add float_equal first_slot [(0, float_chunk)] 0 st1) \<and>
           equals float_equal st (Holds (Finite 1) :: (float_value, unit) AllTypeVariant) = Inr r \<and>
           equals float_equal st' (Holds (Finite 1) :: (float_value, unit) AllTypeVariant) = Inr r' \<and>
           set (range_rows st' r') = set (range_rows st r) \<and>
           indexed_chunk_ids st' = indexed_chunk_ids st)"
    and b: "\<exists>n st1. remove float_equal [1, 0, 5, 0] st = Inr (n, st1) \<and>
        n = fcard (indexed_chunk_ids st |\<inter>| fset_of_list [1, 0, 5, 0]) \<and>
        indexed_chunk_ids st1 = indexed_chunk_ids st |-| fset_of_list [1, 0, 5, 0] \<and>
        fcard (indexed_chunk_ids st1) \<le> fcard (indexed_chunk_ids st)"
    by blast
  have s: "st = \<lparr>index_map = [(Finite 2, [RowID 0 2]), (Finite 1, [RowID 0 0, RowID 0 3])],
          null_values = [True \<mapsto> [RowID 0 1]], indexed_chunk_ids = {|0|}\<rparr>"
    using st by (simp add: float_run)
  have i: "indexed_chunk_ids st = {|0|}" by (simp add: s)
  have h4: "fst ` set [(0, float_chunk)] \<subseteq> fset (indexed_chunk_ids st)" by (simp add: i)
  have e: "equals float_equal st (Holds (Finite 1) :: (float_value, unit) AllTypeVariant) = Inr (1, 2)"
    by (simp add: s equals_def boost_get_def float_equal_def)
  have rr: "range_rows st (1, 2) = [RowID 0 0, RowID 0 3]"
    by (simp add: s range_rows_def)
  from a h4 obtain n st1 st' r r' where c:
    "remove float_equal (map fst [(0, float_chunk)]) st = Inr (n, st1)"
    "st' = snd (add float_equal first_slot [(0, float_chunk)] 0 st1)"
    "equals float_equal st (Holds (Finite 1) :: (float_value, unit) AllTypeVariant) = Inr r"
    "equals float_equal st' (Holds (Finite 1) :: (float_value, unit) AllTypeVariant) = Inr r'"
    "set (range_rows st' r') = set (range_rows st r)"
    "indexed_chunk_ids st' = indexed_chunk_ids st"
    by blast
  from c(3) e have "r = (1, 2)" by simp
  then have c7: "range_rows st r = [RowID 0 0, RowID 0 3]" by (simp only: rr)
  have "indexed_chunk_ids st |\<inter>| fset_of_list [1, 0, 5, 0] = {|0::nat|}" by (auto simp: i)
  then have f: "fcard (indexed_chunk_ids st |\<inter>| fset_of_list [1, 0, 5, 0]) = 1"
    by (simp add: fcard_finsert_if)
  have g: "indexed_chunk_ids st |-| fset_of_list [1, 0, 5, 0] = {||}" by (auto simp: i)
  from b obtain n2 st2 where d: "remove float_equal [1, 0, 5, 0] st = Inr (n2, st2)"
    "n2 = fcard (indexed_chunk_ids st |\<inter>| fset_of_list [1, 0, 5, 0])"
    "indexed_chunk_ids st2 = indexed_chunk_ids st |-| fset_of_list [1, 0, 5, 0]"
    by blast
  have d2: "n2 = 1" using d(2) by (simp only: f)
  have d3: "indexed_chunk_ids st2 = {||}" using d(3) by (simp only: g)
  have p1: "\<exists>n st1 st' r r'.
           remove float_equal (map fst [(0, float_chunk)]) st = Inr (n, st1) \<and>
           st' = snd (add float_equal first_slot [(0, float_chunk)] 0 st1) \<and>
           equals float_equal st (Holds (Finite 1) :: (float_value, unit) AllTypeVariant) = Inr r \<and>
           equals float_equal st' (Holds (Finite 1) :: (float_value, unit) AllTypeVariant) = Inr r' \<and>
           range_rows st r = [RowID 0 0, RowID 0 3] \<and>
           set (range_rows st' r') = set (range_rows st r) \<and>
           indexed_chunk_ids st' = indexed_chunk_ids st"
    using c c7 by blast
  have p2: "\<exists>n st1. remove float_equal [1, 0, 5, 0] st = Inr (n, st1) \<and> n = 1 \<and>
           indexed_chunk_ids st1 = {||}"
    using d(1) d2 d3 by blast
  show ?thesis using float_lawful h2 h3 st h4 p1 p2 by blast
qed

text \<open>
  Claim C5. The invariant of the index holds on every state reached without an exception
  for the value buckets, the null rows and the indexed chunk ids (lemma \<open>index_inv_run\<close>
  with \<open>run_ok_eq\<close>; \<open>_indexed_chunk_ids\<close> is a set, so no id occurs twice), but not for the
  bucket of the NULL rows: \<open>remove\<close> reaches it through the subscript operator, which
  creates it, and never erases it. After indexing one chunk without NULLs and removing it
  again, \<open>_null_values\<close> holds the key \<open>true\<close> with an empty vector, although the index is
  empty and the key was absent before the removal.
\<close>

theorem remove_leaves_empty_null_bucket:
  "remove (=) [0] (new_index (=) slot [(0, one_row_chunk)] 0) =
     Inr (1, \<lparr>index_map = [], null_values = [True \<mapsto> []], indexed_chunk_ids = {||}\<rparr>) \<and>
   null_values (new_index (=) slot [(0, one_row_chunk)] 0) True = None \<and>
   run (=) slot [Add [(0, one_row_chunk)] 0, Remove [0]] =
     Inr \<lparr>index_map = [], null_values = [True \<mapsto> []], indexed_chunk_ids = {||}\<rparr>"
  by (simp add: run_def remove_def new_index_def add_def add_chunk_def remove_chunk_def empty_index_def
      segment_iterate_def add_position_def subscript_def contains_def insert_bucket_def
      null_subscript_def one_row_chunk_def remove_loop.simps fcard_finsert_if)

text \<open>
  Claim C9. Expected empty results are ordinary return values. In every index state and for
  every comparison of keys: \<open>equals\<close> of a value of the index's data type returns a range,
  and for a value without a bucket the empty range at the end position; \<open>remove\<close> of a
  chunk id that is not indexed returns 0 and the state unchanged, without an exception,
  and such an id anywhere in the list of a call changes nothing of the call's result;
  \<open>add\<close> of a chunk whose id is indexed already returns 0 and the state unchanged, and
  such a chunk anywhere in the list of a call changes neither count nor state.
\<close>

theorem expected_empty_results:
  "(\<exists>r. equals eq st (Holds v :: ('a, 'o) AllTypeVariant) = Inr r) \<and>
   (\<not> contains eq (index_map st) v \<longrightarrow>
      equals eq st (Holds v :: ('a, 'o) AllTypeVariant) = Inr (cend st, cend st) \<and>
      range_rows st (cend st, cend st) = []) \<and>
   (cid |\<notin>| indexed_chunk_ids st \<longrightarrow>
      remove eq [cid] st = Inr (0, st) \<and>
      remove eq (ids1 @ cid # ids2) st = remove eq (ids1 @ ids2) st) \<and>
   (fst chunk |\<in>| indexed_chunk_ids st \<longrightarrow>
      add eq slot [chunk] column_id st = (0, st) \<and>
      add eq slot (cs1 @ chunk # cs2) column_id st = add eq slot (cs1 @ cs2) column_id st)"
proof (intro conjI impI)
  show "\<exists>r. equals eq st (Holds v :: ('a, 'o) AllTypeVariant) = Inr r"
    by (simp add: equals_Holds_any)
next
  assume "\<not> contains eq (index_map st) v"
  then show "equals eq st (Holds v :: ('a, 'o) AllTypeVariant) = Inr (cend st, cend st)"
    by (simp add: equals_Holds_any)
  show "range_rows st (cend st, cend st) = []" by simp
next
  assume a: "cid |\<notin>| indexed_chunk_ids st"
  then show "remove eq [cid] st = Inr (0, st)" by (rule remove_skip_any)
  from a show "remove eq (ids1 @ cid # ids2) st = remove eq (ids1 @ ids2) st"
    by (rule remove_append_skip_any)
next
  assume a: "fst chunk |\<in>| indexed_chunk_ids st"
  then show "add eq slot [chunk] column_id st = (0, st)" by (simp add: add_all_indexed)
  show "add eq slot (cs1 @ chunk # cs2) column_id st = add eq slot (cs1 @ cs2) column_id st"
    unfolding add_def Let_def by (simp only: fold_add_chunk_append_skip [OF a])
qed

theorem expected_empty_results_witness:
  "\<not> contains (=) (index_map (run_ok first_slot scenario_ops)) 7 \<and>
   run (=) first_slot scenario_ops = Inr (run_ok first_slot scenario_ops) \<and>
   equals (=) (run_ok first_slot scenario_ops) (Holds 7 :: (int, unit) AllTypeVariant) = Inr (3, 3) \<and>
   range_rows (run_ok first_slot scenario_ops) (3, 3) = [] \<and>
   1 |\<notin>| indexed_chunk_ids (run_ok first_slot scenario_ops) \<and>
   remove (=) [1] (run_ok first_slot scenario_ops) = Inr (0, run_ok first_slot scenario_ops) \<and>
   fst (0, scenario_chunk 0) |\<in>| indexed_chunk_ids (run_ok first_slot scenario_ops) \<and>
   add (=) first_slot [(0, scenario_chunk 0)] 0 (run_ok first_slot scenario_ops) =
     (0, run_ok first_slot scenario_ops)"
proof -
  have h1: "\<not> contains (=) (index_map (run_ok first_slot scenario_ops)) 7"
    by (simp add: scenario_index_map contains_def)
  have h2: "1 |\<notin>| indexed_chunk_ids (run_ok first_slot scenario_ops)"
    by (simp add: scenario_indexed)
  have h3: "fst (0, scenario_chunk 0) |\<in>| indexed_chunk_ids (run_ok first_slot scenario_ops)"
    by (simp add: scenario_indexed)
  have e: "cend (run_ok first_slot scenario_ops) = 3"
    by (simp add: cend_def scenario_index_map)
  note t = expected_empty_results [where st = "run_ok first_slot scenario_ops" and v = 7 and cid = 1
      and chunk = "(0, scenario_chunk 0)" and slot = first_slot and column_id = 0 and eq = "(=)",
      unfolded e]
  show ?thesis using h1 h2 h3 t scenario_run by blast
qed

section \<open>Properties of the column materializer\<close>

subsection \<open>Sampling\<close>

declare gather_loop.simps [simp del]

lemma unat_ucast_32_64: "unat (ucast (c :: 32 word) :: 64 word) = unat c"
proof -
  have "unat c < 2 ^ 32" using unsigned_less [of c] by simp
  then have "unat c < 2 ^ 64" by simp
  then show ?thesis by (simp add: unsigned_ucast_eq take_bit_nat_eq_self)
qed

lemma unat_of_nat_64: "k < 2 ^ 64 \<Longrightarrow> unat (of_nat k :: 64 word) = k"
  by (simp add: unat_of_nat)

lemma unat_vector_size: "length xs < 2 ^ 64 \<Longrightarrow> unat (vector_size xs) = length xs"
  by (simp add: vector_size_def unat_of_nat)

lemma max_one_word: "unat (max 1 (c :: 32 word)) = max 1 (unat c)"
  by (simp add: max_def word_le_nat_alt)

lemma stride_product_less:
  fixes k s c :: nat
  assumes "k < c" "0 < s"
  shows "k * (s div c) < s"
proof (cases "s div c = 0")
  case True
  then show ?thesis using assms by simp
next
  case False
  have "k * (s div c) < c * (s div c)" using assms(1) False by simp
  also have "\<dots> \<le> s" by simp
  finally show ?thesis .
qed

lemma unat_step_width:
  assumes "length seg < 2 ^ 64"
  shows "unat (vector_size seg div ucast (max 1 (c :: 32 word))) = length seg div max 1 (unat c)"
  by (simp add: unat_div unat_vector_size [OF assms] unat_ucast_32_64 max_one_word)

lemma sample_index:
  fixes c :: "32 word"
  assumes fit: "length seg < 2 ^ 64" and ne: "0 < length seg" and k: "k < unat c"
  shows "unat ((of_nat k :: 64 word) * (vector_size seg div ucast (max 1 c))) =
           k * (length seg div max 1 (unat c))"
    and "k * (length seg div max 1 (unat c)) < length seg"
proof -
  have c: "max 1 (unat c) = unat c" using k by simp
  have "unat c < 2 ^ 32" using unsigned_less [of c] by simp
  then have "k < 2 ^ 64" using k by simp
  then have uk: "unat (of_nat k :: 64 word) = k" by (rule unat_of_nat_64)
  show lt: "k * (length seg div max 1 (unat c)) < length seg"
    unfolding c using k ne by (rule stride_product_less)
  then have "unat (of_nat k :: 64 word) * unat (vector_size seg div ucast (max 1 c)) < 2 ^ LENGTH(64)"
    using fit by (simp add: uk unat_step_width [OF fit])
  then have "unat ((of_nat k :: 64 word) * (vector_size seg div ucast (max 1 c))) =
      unat (of_nat k :: 64 word) * unat (vector_size seg div ucast (max 1 c))"
    by (simp only: unat_mult_lem)
  then show "unat ((of_nat k :: 64 word) * (vector_size seg div ucast (max 1 c))) =
           k * (length seg div max 1 (unat c))"
    by (simp add: uk unat_step_width [OF fit])
qed

lemma of_nat_less_ucast:
  fixes c :: "32 word"
  assumes "j \<le> unat c"
  shows "(of_nat j :: 64 word) < ucast c \<longleftrightarrow> j < unat c"
proof -
  have "unat c < 2 ^ 32" using unsigned_less [of c] by simp
  then have "j < 2 ^ 64" using assms by simp
  then have "unat (of_nat j :: 64 word) = j" by (rule unat_of_nat_64)
  then show ?thesis by (simp add: word_less_nat_alt unat_ucast_32_64)
qed

lemma gather_loop_eq:
  assumes "\<forall>k < unat c. unat ((of_nat k :: 64 word) * step) < length seg" and "j \<le> unat c"
  shows "gather_loop seg c step (of_nat j) acc =
     Some (acc @ map (\<lambda>k. mvalue (seg ! unat ((of_nat k :: 64 word) * step))) [j..<unat c])"
  using assms(2)
proof (induction "unat c - j" arbitrary: j acc)
  case 0
  then have "j = unat c" by simp
  then have "\<not> (of_nat j :: 64 word) < ucast c" and e: "[j..<unat c] = []"
    using of_nat_less_ucast [of j c] by simp_all
  then have g: "gather_loop seg c step (of_nat j) acc = Some acc"
    by (subst gather_loop.simps) simp
  show ?case unfolding g e by simp
next
  case (Suc n)
  then have j: "j < unat c" by simp
  then have lt: "(of_nat j :: 64 word) < ucast c" by (simp add: of_nat_less_ucast)
  have inb: "unat ((of_nat j :: 64 word) * step) < length seg" using assms(1) j by blast
  have n: "n = unat c - Suc j" using Suc.hyps(2) by simp
  have "Suc j \<le> unat c" using j by simp
  from Suc.hyps(1) [OF n this]
  have ih: "gather_loop seg c step (of_nat (Suc j)) (acc @ [mvalue (seg ! unat ((of_nat j :: 64 word) * step))]) =
     Some ((acc @ [mvalue (seg ! unat ((of_nat j :: 64 word) * step))]) @
        map (\<lambda>k. mvalue (seg ! unat ((of_nat k :: 64 word) * step))) [Suc j..<unat c])" .
  have "gather_loop seg c step (of_nat j) acc =
      gather_loop seg c step (of_nat j + 1) (acc @ [mvalue (seg ! unat ((of_nat j :: 64 word) * step))])"
    using lt inb by (subst gather_loop.simps) (simp add: Let_def)
  also have "(of_nat j + 1 :: 64 word) = of_nat (Suc j)" by simp
  finally show ?case using ih j by (simp add: upt_conv_Cons)
qed

lemma vector_size_pos: "length xs < 2 ^ 64 \<Longrightarrow> 0 < vector_size xs \<longleftrightarrow> xs \<noteq> []"
  using unat_vector_size [of xs] by (simp add: word_less_nat_alt)

lemma gather_samples_eq:
  assumes fit: "length seg < 2 ^ 64"
  shows "gather_samples_from_segment seg sub =
     Some (sub\<lparr>samples := samples sub @ sample_values seg (unat (samples_to_collect sub))\<rparr>)"
proof (cases "seg \<noteq> [] \<and> 0 < samples_to_collect sub")
  case False
  then have "sample_values seg (unat (samples_to_collect sub)) = []"
    by (auto simp: sample_values_def word_less_nat_alt)
  moreover have "\<not> (0 < vector_size seg \<and> 0 < samples_to_collect sub)"
    using False by (simp add: vector_size_pos [OF fit])
  ultimately show ?thesis
    by (auto simp: gather_samples_from_segment_def Let_def)
next
  case True
  define c where "c = samples_to_collect sub"
  define step where "step = vector_size seg div ucast (max 1 c)"
  have ne: "0 < length seg" using True by simp
  have b: "\<forall>k < unat c. unat ((of_nat k :: 64 word) * step) < length seg"
    unfolding step_def using sample_index [OF fit ne] by simp
  have "gather_loop seg c step (of_nat 0) [] =
     Some ([] @ map (\<lambda>k. mvalue (seg ! unat ((of_nat k :: 64 word) * step))) [0..<unat c])"
    using b by (rule gather_loop_eq) simp
  moreover have "map (\<lambda>k. mvalue (seg ! unat ((of_nat k :: 64 word) * step))) [0..<unat c] =
      map (\<lambda>k. mvalue (seg ! (k * (length seg div max 1 (unat c))))) [0..<unat c]"
    unfolding step_def using sample_index(1) [OF fit ne] by simp
  ultimately have "gather_loop seg c step 0 [] = Some (sample_values seg (unat c))"
    using True by (simp add: sample_values_def)
  then show ?thesis using True
    by (simp add: gather_samples_from_segment_def vector_size_pos [OF fit] Let_def
        c_def [symmetric] step_def [symmetric])
qed

lemma length_sample_values:
  "length (sample_values seg c) = (if seg = [] then 0 else c)"
  by (simp add: sample_values_def)

lemma materialize_iterate:
  "iterate_from n seg (materialize_position mn cid) (out, nulls) =
     (out @ materialized_from cid n seg, nulls @ (if mn then cell_rows cid n seg None else []))"
proof (induction seg arbitrary: n out nulls)
  case Nil
  then show ?case by simp
next
  case (Cons cell seg)
  then show ?case by (cases cell) (simp_all add: materialize_position_def cell_rows_Cons)
qed

lemma length_materialized_from: "length (materialized_from cid n seg) \<le> length seg"
  by (induction cid n seg rule: materialized_from.induct) auto

lemma materialized_from_empty:
  "materialized_from cid n seg = [] \<longleftrightarrow> (\<forall>v. Some v \<notin> set seg)"
  by (induction cid n seg rule: materialized_from.induct) auto

lemma mset_unguarded_linear_insert:
  "mset (unguarded_linear_insert val xs) = add_mset val (mset xs)"
  by (induction xs) simp_all

lemma mset_insertion_step: "mset (insertion_step xs val) = add_mset val (mset xs)"
proof (cases xs)
  case Nil
  then show ?thesis by (simp add: insertion_step_def)
next
  case (Cons first rest)
  have "mset (rev (unguarded_linear_insert val (rev xs))) = add_mset val (mset xs)"
    by (simp add: mset_unguarded_linear_insert)
  then show ?thesis unfolding insertion_step_def Cons by (simp del: mset_rev)
qed

lemma mset_foldl_insertion_step: "mset (foldl insertion_step acc xs) = mset acc + mset xs"
  by (induction xs arbitrary: acc) (simp_all add: mset_insertion_step)

lemma mset_std_sort: "mset (std_sort xs) = mset xs"
  by (simp add: std_sort_def mset_foldl_insertion_step)

lemma length_std_sort [simp]: "length (std_sort xs) = length xs"
  using arg_cong [OF mset_std_sort [of xs], of size] by simp

lemma std_sort_empty [simp]: "std_sort xs = [] \<longleftrightarrow> xs = []"
  by (metis length_0_conv length_std_sort)

lemma strict_weak_asym:
  "strict_weak_on S \<Longrightarrow> x \<in> S \<Longrightarrow> y \<in> S \<Longrightarrow> x < y \<Longrightarrow> \<not> y < x"
  unfolding strict_weak_on_def by blast

lemma strict_weak_trans:
  "strict_weak_on S \<Longrightarrow> x \<in> S \<Longrightarrow> y \<in> S \<Longrightarrow> z \<in> S \<Longrightarrow> x < y \<Longrightarrow> y < z \<Longrightarrow> x < z"
  unfolding strict_weak_on_def by blast

lemma strict_weak_between:
  "strict_weak_on S \<Longrightarrow> x \<in> S \<Longrightarrow> y \<in> S \<Longrightarrow> z \<in> S \<Longrightarrow> x < z \<Longrightarrow> x < y \<or> y < z"
  unfolding strict_weak_on_def by blast

lemma set_unguarded_linear_insert:
  "set (unguarded_linear_insert val xs) = insert val (set xs)"
  using arg_cong [OF mset_unguarded_linear_insert [of val xs], of set_mset] by simp

lemma sorted_unguarded_linear_insert:
  assumes sw: "strict_weak_on S" and v: "mvalue val \<in> S"
  shows "mvalue ` set xs \<subseteq> S \<Longrightarrow>
     sorted_wrt (\<lambda>later earlier. \<not> mvalue later < mvalue earlier) xs \<Longrightarrow>
     sorted_wrt (\<lambda>later earlier. \<not> mvalue later < mvalue earlier) (unguarded_linear_insert val xs)"
proof (induction xs)
  case Nil
  then show ?case by simp
next
  case (Cons prev before)
  have p: "mvalue prev \<in> S" and b: "mvalue ` set before \<subseteq> S" using Cons.prems(1) by auto
  have s: "sorted_wrt (\<lambda>later earlier. \<not> mvalue later < mvalue earlier) before"
    and h: "\<forall>y \<in> set before. \<not> mvalue prev < mvalue y"
    using Cons.prems(2) by simp_all
  show ?case
  proof (cases "mvalue val < mvalue prev")
    case True
    have "\<not> mvalue prev < mvalue val" using strict_weak_asym [OF sw v p True] .
    then have "\<forall>y \<in> set (unguarded_linear_insert val before). \<not> mvalue prev < mvalue y"
      using h by (simp add: set_unguarded_linear_insert)
    then show ?thesis using True Cons.IH [OF b s] by simp
  next
    case False
    have "\<not> mvalue val < mvalue y" if y: "y \<in> set before" for y
    proof
      assume l: "mvalue val < mvalue y"
      have "mvalue y \<in> S" using b y by auto
      from strict_weak_between [OF sw v p this l] have "mvalue prev < mvalue y" using False by simp
      then show False using h y by simp
    qed
    then show ?thesis using False Cons.prems(2) by simp
  qed
qed

lemma non_decreasing_insertion_step:
  assumes sw: "strict_weak_on S" and v: "mvalue val \<in> S" and xs: "mvalue ` set xs \<subseteq> S"
    and s: "non_decreasing xs"
  shows "non_decreasing (insertion_step xs val)"
proof (cases xs)
  case Nil
  then show ?thesis by (simp add: insertion_step_def non_decreasing_def)
next
  case (Cons first rest)
  have f: "mvalue first \<in> S" using xs Cons by simp
  show ?thesis
  proof (cases "mvalue val < mvalue first")
    case True
    have "\<not> mvalue y < mvalue val" if y: "y \<in> set xs" for y
    proof
      assume l: "mvalue y < mvalue val"
      have ys: "mvalue y \<in> S" using xs y by auto
      from strict_weak_trans [OF sw ys v f l True] have yf: "mvalue y < mvalue first" .
      have "\<not> mvalue y < mvalue first"
      proof (cases "y = first")
        case True
        then show ?thesis using yf strict_weak_asym [OF sw f f] by auto
      next
        case False
        then have "y \<in> set rest" using y Cons by simp
        then show ?thesis using s by (simp add: Cons non_decreasing_def)
      qed
      then show False using yf by simp
    qed
    then have "non_decreasing (val # xs)" using s by (simp add: non_decreasing_def)
    then show ?thesis using True by (simp add: insertion_step_def Cons)
  next
    case False
    have r: "mvalue ` set (rev xs) \<subseteq> S" using xs by simp
    have "sorted_wrt (\<lambda>later earlier. \<not> mvalue later < mvalue earlier) (rev xs)"
      using s by (simp add: non_decreasing_def sorted_wrt_rev)
    from sorted_unguarded_linear_insert [OF sw v r this]
    have "non_decreasing (rev (unguarded_linear_insert val (rev xs)))"
      by (simp add: non_decreasing_def sorted_wrt_rev)
    then show ?thesis using False by (simp add: insertion_step_def Cons)
  qed
qed

lemma set_insertion_step: "set (insertion_step xs val) = insert val (set xs)"
  using arg_cong [OF mset_insertion_step [of xs val], of set_mset] by simp

lemma non_decreasing_foldl:
  assumes sw: "strict_weak_on S"
  shows "mvalue ` set acc \<subseteq> S \<Longrightarrow> mvalue ` set xs \<subseteq> S \<Longrightarrow> non_decreasing acc \<Longrightarrow>
     non_decreasing (foldl insertion_step acc xs)"
proof (induction xs arbitrary: acc)
  case Nil
  then show ?case by simp
next
  case (Cons val xs)
  have v: "mvalue val \<in> S" and r: "mvalue ` set xs \<subseteq> S" using Cons.prems(2) by auto
  have 1: "mvalue ` set (insertion_step acc val) \<subseteq> S"
    using Cons.prems(1) v by (simp add: set_insertion_step)
  have 2: "non_decreasing (insertion_step acc val)"
    using sw v Cons.prems(1) Cons.prems(3) by (rule non_decreasing_insertion_step)
  from Cons.IH [OF 1 r 2] show ?case by simp
qed

lemma non_decreasing_std_sort:
  "strict_weak_on S \<Longrightarrow> mvalue ` set xs \<subseteq> S \<Longrightarrow> non_decreasing (std_sort xs)"
  unfolding std_sort_def by (rule non_decreasing_foldl) (simp_all add: non_decreasing_def)

lemma values_materialized_from:
  "mvalue ` set (materialized_from cid n seg) = segment_values seg"
  by (induction cid n seg rule: materialized_from.induct) (auto simp: segment_values_def)

lemma strict_weak_on_linorder: "strict_weak_on (S :: 'a::linorder set)"
  by (auto simp: strict_weak_on_def)

lemma non_decreasing_linorder:
  "non_decreasing (seg :: ('a::linorder) MaterializedSegment) \<longleftrightarrow> sorted (map mvalue seg)"
  by (simp add: non_decreasing_def sorted_map not_less)

lemma materialize_segment_eq:
  assumes fit: "length seg < 2 ^ 64"
  shows "materialize_segment cm seg cid nulls sub =
     Some (segment_output cm cid seg,
           nulls @ (if cm_materialize_null cm then cell_rows cid 0 seg None else []),
           sub\<lparr>samples := samples sub @
             sample_values (segment_output cm cid seg) (unat (samples_to_collect sub))\<rparr>)"
proof -
  have "length (segment_output cm cid seg) \<le> length seg"
    using length_materialized_from [of cid 0 seg] by (simp add: segment_output_def)
  then have "length (segment_output cm cid seg) < 2 ^ 64" using fit by simp
  note g = gather_samples_eq [OF this, of sub]
  have it: "segment_iterate seg (materialize_position (cm_materialize_null cm) cid) ([], nulls) =
      (materialized_from cid 0 seg,
       nulls @ (if cm_materialize_null cm then cell_rows cid 0 seg None else []))"
    by (simp add: segment_iterate_from materialize_iterate)
  show ?thesis
    unfolding materialize_segment_def it Let_def fst_conv snd_conv segment_output_def [symmetric] g
    by simp
qed

lemma materialize_chunk_eq:
  assumes "length (get_segment (input ! cid) column_id) < 2 ^ 64"
  shows "materialize_chunk cm input column_id cid s =
     Some \<lparr>ms_output = (ms_output s)[cid := Some (chunk_output cm input column_id cid)],
           ms_null_rows = ms_null_rows s @
             (if cm_materialize_null cm
              then cell_rows cid 0 (get_segment (input ! cid) column_id) None else []),
           ms_subsamples = ms_subsamples s @ [chunk_subsample cm input column_id cid]\<rparr>"
  by (simp add: materialize_chunk_def materialize_segment_eq [OF assms] Let_def chunk_output_def
      chunk_subsample_def new_Subsample_def)

declare materialize_loop.simps [simp del]

lemma materialize_loop_eq:
  assumes "segments_fit input column_id" and "cid \<le> length input"
  shows "\<exists>s'. materialize_loop cm input column_id cid s = Some s' \<and>
     ms_subsamples s' = ms_subsamples s @ map (chunk_subsample cm input column_id) [cid..<length input] \<and>
     length (ms_output s') = length (ms_output s) \<and>
     (\<forall>i < length (ms_output s). ms_output s' ! i =
        (if cid \<le> i \<and> i < length input then Some (chunk_output cm input column_id i)
         else ms_output s ! i))"
  using assms(2)
proof (induction "length input - cid" arbitrary: cid s)
  case 0
  then have "cid = length input" by simp
  then show ?case by (subst materialize_loop.simps) auto
next
  case (Suc n)
  then have lt: "cid < length input" by simp
  then have "length (get_segment (input ! cid) column_id) < 2 ^ 64"
    using assms(1) by (simp add: segments_fit_def list_all_length)
  note step = materialize_chunk_eq [OF this, of cm s]
  define s1 where "s1 = \<lparr>ms_output = (ms_output s)[cid := Some (chunk_output cm input column_id cid)],
           ms_null_rows = ms_null_rows s @
             (if cm_materialize_null cm
              then cell_rows cid 0 (get_segment (input ! cid) column_id) None else []),
           ms_subsamples = ms_subsamples s @ [chunk_subsample cm input column_id cid]\<rparr>"
  have n: "n = length input - Suc cid" using Suc.hyps(2) by simp
  have "Suc cid \<le> length input" using lt by simp
  from Suc.hyps(1) [OF n this, of s1]
  obtain s' where s': "materialize_loop cm input column_id (Suc cid) s1 = Some s'"
    "ms_subsamples s' = ms_subsamples s1 @ map (chunk_subsample cm input column_id) [Suc cid..<length input]"
    "length (ms_output s') = length (ms_output s1)"
    "\<forall>i < length (ms_output s1). ms_output s' ! i =
        (if Suc cid \<le> i \<and> i < length input then Some (chunk_output cm input column_id i)
         else ms_output s1 ! i)"
    by blast
  have "materialize_loop cm input column_id cid s = Some s'"
    using lt s'(1) by (subst materialize_loop.simps) (simp add: step s1_def [symmetric])
  moreover have "ms_subsamples s' =
      ms_subsamples s @ map (chunk_subsample cm input column_id) [cid..<length input]"
    using s'(2) lt by (simp add: s1_def upt_conv_Cons)
  moreover have "length (ms_output s') = length (ms_output s)"
    using s'(3) by (simp add: s1_def)
  moreover have "ms_output s' ! i =
        (if cid \<le> i \<and> i < length input then Some (chunk_output cm input column_id i)
         else ms_output s ! i)" if "i < length (ms_output s)" for i
  proof -
    have "ms_output s' ! i =
        (if Suc cid \<le> i \<and> i < length input then Some (chunk_output cm input column_id i)
         else ms_output s1 ! i)"
      using s'(4) that by (simp add: s1_def)
    then show ?thesis using that lt by (cases "i = cid") (auto simp: s1_def)
  qed
  ultimately show ?case by blast
qed

lemma fold_append_samples:
  "fold (\<lambda>subsample acc. acc @ samples subsample) subs acc = acc @ concat (map samples subs)"
  by (induction subs arbitrary: acc) simp_all

lemma run_jobs_eq:
  assumes "segments_fit input column_id"
  shows "\<exists>s. run_jobs cm input column_id = Some s \<and>
     ms_subsamples s = map (chunk_subsample cm input column_id) [0..<length input] \<and>
     ms_output s = map (\<lambda>cid. Some (chunk_output cm input column_id cid)) [0..<length input]"
proof -
  define s0 :: "'a materialize_state" where
    "s0 = \<lparr>ms_output = replicate (length input) None, ms_null_rows = [], ms_subsamples = []\<rparr>"
  from materialize_loop_eq [OF assms, of 0 cm s0]
  obtain s where s: "materialize_loop cm input column_id 0 s0 = Some s"
    "ms_subsamples s = ms_subsamples s0 @ map (chunk_subsample cm input column_id) [0..<length input]"
    "length (ms_output s) = length (ms_output s0)"
    "\<forall>i < length (ms_output s0). ms_output s ! i =
        (if 0 \<le> i \<and> i < length input then Some (chunk_output cm input column_id i)
         else ms_output s0 ! i)"
    by auto
  have "ms_output s = map (\<lambda>cid. Some (chunk_output cm input column_id cid)) [0..<length input]"
    using s(3) s(4) by (intro nth_equalityI) (simp_all add: s0_def)
  then show ?thesis using s(1) s(2) by (simp add: run_jobs_def s0_def)
qed

lemma materialize_eq:
  assumes "segments_fit input column_id"
  shows "\<exists>s. run_jobs cm input column_id = Some s \<and>
     ms_subsamples s = map (chunk_subsample cm input column_id) [0..<length input] \<and>
     materialize cm input column_id =
       Some (map (\<lambda>cid. Some (chunk_output cm input column_id cid)) [0..<length input],
             ms_null_rows s, concat (map samples (ms_subsamples s)))"
proof -
  from run_jobs_eq [OF assms, of cm] obtain s where s: "run_jobs cm input column_id = Some s"
    "ms_subsamples s = map (chunk_subsample cm input column_id) [0..<length input]"
    "ms_output s = map (\<lambda>cid. Some (chunk_output cm input column_id cid)) [0..<length input]"
    by blast
  have "materialize cm input column_id =
       Some (map (\<lambda>cid. Some (chunk_output cm input column_id cid)) [0..<length input],
             ms_null_rows s, concat (map samples (ms_subsamples s)))"
    by (simp add: materialize_def s(1) s(3) fold_append_samples Let_def)
  then show ?thesis using s(1) s(2) by blast
qed

lemma unat_min_word: "unat (min a b) = min (unat a) (unat (b :: 'w::len word))"
  by (simp add: min_def word_le_nat_alt)

lemma chunk_output_empty:
  "chunk_output cm input column_id cid = [] \<longleftrightarrow>
     (\<forall>v. Some v \<notin> set (get_segment (input ! cid) column_id))"
  by (simp add: chunk_output_def segment_output_def materialized_from_empty)

lemma length_chunk_samples:
  "length (samples (chunk_subsample cm input column_id cid)) =
     (if \<exists>v. Some v \<in> set (get_segment (input ! cid) column_id)
      then min (unat samples_per_chunk) (unat (chunk_size (input ! cid))) else 0)"
  by (simp add: chunk_subsample_def length_sample_values chunk_output_empty unat_min_word)

lemmas materialize_eval_defs = materialize_def run_jobs_def materialize_loop.simps materialize_chunk_def
  materialize_segment_def gather_samples_from_segment_def gather_loop.simps segment_iterate_def
  materialize_position_def new_Subsample_def samples_per_chunk_def vector_size_def std_sort_def insertion_step_def Let_def

lemma materialize_null_table:
  "materialize \<lparr>cm_sort = True, cm_materialize_null = True\<rparr> null_table 0 = Some ([Some []], [RowID 0 0], [])"
  by (simp add: materialize_eval_defs null_table_def)

lemma materialize_gap_table:
  "materialize \<lparr>cm_sort = True, cm_materialize_null = True\<rparr> gap_table 0 =
     Some ([Some [MaterializedValue (RowID 0 0) 1, MaterializedValue (RowID 0 2) 2]], [RowID 0 1], [1, 1, 1])"
  by (simp add: materialize_eval_defs gap_table_def)

lemma materialize_descending_table:
  "materialize \<lparr>cm_sort = True, cm_materialize_null = False\<rparr> descending_table 0 =
     Some ([Some [MaterializedValue (RowID 0 1) 3, MaterializedValue (RowID 0 0) 4],
            Some [MaterializedValue (RowID 1 1) 1, MaterializedValue (RowID 1 0) 2]], [], [3, 4, 1, 2])"
  by (simp add: materialize_eval_defs descending_table_def)

subsection \<open>Claims about the materializer\<close>

text \<open>
  A chunk whose only cell is NULL has one row, so \<open>min(samples_per_chunk, chunk_row_count)\<close> is
  1, but it contributes no sample: its materialized segment is empty and the sampler
  guards on that.
\<close>

theorem sample_count_counterexample:
  "materialize \<lparr>cm_sort = True, cm_materialize_null = True\<rparr> null_table 0 =
     Some ([Some []], [RowID 0 0], []) \<and>
   length ([] :: int list) = 0 \<and>
   min (unat samples_per_chunk) (unat (chunk_size (null_table ! 0))) = 1"
  by (simp add: materialize_null_table) (simp add: null_table_def samples_per_chunk_def)

text \<open>
  Claim C6, amended. For every table whose segments have sizes a \<open>size_t\<close> holds,
  \<open>materialize\<close> returns; the chunk with id \<open>cid\<close> contributes
  \<open>min(samples_per_chunk, chunk_row_count)\<close> samples when its segment has at least one
  non-NULL cell and none otherwise; the returned samples are the chunks' samples in chunk
  order, so their number is the sum of the chunks' sample counts.
\<close>

theorem sample_counts:
  assumes "segments_fit input column_id"
  shows "\<exists>s out nulls smp.
     run_jobs cm input column_id = Some s \<and>
     materialize cm input column_id = Some (out, nulls, smp) \<and>
     length (ms_subsamples s) = length input \<and>
     (\<forall>cid < length input.
        length (samples (ms_subsamples s ! cid)) =
          (if \<exists>v. Some v \<in> set (get_segment (input ! cid) column_id)
           then min (unat samples_per_chunk) (unat (chunk_size (input ! cid))) else 0)) \<and>
     smp = concat (map samples (ms_subsamples s)) \<and>
     length smp = sum_list (map (\<lambda>subsample. length (samples subsample)) (ms_subsamples s))"
proof -
  from materialize_eq [OF assms, of cm] obtain s where s: "run_jobs cm input column_id = Some s"
    "ms_subsamples s = map (chunk_subsample cm input column_id) [0..<length input]"
    "materialize cm input column_id =
       Some (map (\<lambda>cid. Some (chunk_output cm input column_id cid)) [0..<length input],
             ms_null_rows s, concat (map samples (ms_subsamples s)))"
    by blast
  have "length (ms_subsamples s) = length input" by (simp add: s(2))
  moreover have "\<forall>cid < length input.
        length (samples (ms_subsamples s ! cid)) =
          (if \<exists>v. Some v \<in> set (get_segment (input ! cid) column_id)
           then min (unat samples_per_chunk) (unat (chunk_size (input ! cid))) else 0)"
    by (simp add: s(2) length_chunk_samples)
  moreover have "length (concat (map samples (ms_subsamples s))) =
      sum_list (map (\<lambda>subsample. length (samples subsample)) (ms_subsamples s))"
    by (simp add: length_concat comp_def)
  ultimately show ?thesis using s(1) s(3) by blast
qed

theorem sample_counts_witness:
  "segments_fit (gap_table @ null_table) 0 \<and>
   (\<exists>s out nulls smp.
     run_jobs \<lparr>cm_sort = True, cm_materialize_null = True\<rparr> (gap_table @ null_table) 0 = Some s \<and>
     materialize \<lparr>cm_sort = True, cm_materialize_null = True\<rparr> (gap_table @ null_table) 0 =
       Some (out, nulls, smp) \<and>
     length (samples (ms_subsamples s ! 0)) = 3 \<and>
     length (samples (ms_subsamples s ! 1)) = 0 \<and>
     length smp = sum_list (map (\<lambda>subsample. length (samples subsample)) (ms_subsamples s)))"
proof -
  have h: "segments_fit (gap_table @ null_table) 0"
    by (simp add: segments_fit_def gap_table_def null_table_def)
  from sample_counts [OF h, of "\<lparr>cm_sort = True, cm_materialize_null = True\<rparr>"]
  obtain s out nulls smp where
    r: "run_jobs \<lparr>cm_sort = True, cm_materialize_null = True\<rparr> (gap_table @ null_table) 0 = Some s"
      "materialize \<lparr>cm_sort = True, cm_materialize_null = True\<rparr> (gap_table @ null_table) 0 =
         Some (out, nulls, smp)"
      "length smp = sum_list (map (\<lambda>subsample. length (samples subsample)) (ms_subsamples s))"
    and c: "\<forall>cid < length (gap_table @ null_table).
        length (samples (ms_subsamples s ! cid)) =
          (if \<exists>v. Some v \<in> set (get_segment ((gap_table @ null_table) ! cid) 0)
           then min (unat samples_per_chunk) (unat (chunk_size ((gap_table @ null_table) ! cid))) else 0)"
    by blast
  have "length (samples (ms_subsamples s ! 0)) = 3"
    using c [rule_format, of 0] by (auto simp: gap_table_def null_table_def samples_per_chunk_def)
  moreover have "length (samples (ms_subsamples s ! 1)) = 0"
    using c [rule_format, of 1] by (simp add: gap_table_def null_table_def samples_per_chunk_def)
  ultimately show ?thesis using h r by blast
qed

text \<open>
  A chunk of three rows with one NULL: the null-filtered segment has two values, the claim's
  wording gives \<open>min(10, 2) = 2\<close> samples at indices 0 and 1, the code draws
  \<open>min(10, 3) = 3\<close> samples at stride \<open>2 / 3 = 0\<close>, three times the first value.
\<close>

theorem samples_drawn_counterexample:
  "materialize \<lparr>cm_sort = True, cm_materialize_null = True\<rparr> gap_table 0 =
     Some ([Some [MaterializedValue (RowID 0 0) 1, MaterializedValue (RowID 0 2) 2]],
           [RowID 0 1], [1, 1, 1]) \<and>
   claimed_samples [MaterializedValue (RowID 0 0) (1::int), MaterializedValue (RowID 0 2) 2] = [1, 2]"
  by (simp add: materialize_gap_table) (simp add: claimed_samples_def samples_per_chunk_def)

text \<open>
  Claim C7, amended. The task of chunk \<open>cid\<close> leaves the null-filtered (and, when requested,
  sorted) segment in its output slot and a subsample with
  \<open>samples_to_collect = min(samples_per_chunk, chunk_row_count)\<close>, the row count including
  NULL rows. When the materialized segment is not empty the subsample holds exactly
  \<open>samples_to_collect\<close> samples, the element at index
  \<open>k * (segment_size / max(1, samples_to_collect))\<close> for every \<open>k\<close> below
  \<open>samples_to_collect\<close>; when it is empty the subsample holds none.
\<close>

theorem samples_drawn:
  assumes "length (get_segment (input ! cid) column_id) < 2 ^ 64"
  shows "\<exists>s' seg sub.
     materialize_chunk cm input column_id cid s = Some s' \<and>
     ms_output s' = (ms_output s)[cid := Some seg] \<and>
     ms_subsamples s' = ms_subsamples s @ [sub] \<and>
     seg = segment_output cm cid (get_segment (input ! cid) column_id) \<and>
     samples_to_collect sub = min samples_per_chunk (chunk_size (input ! cid)) \<and>
     samples sub =
       (if seg = [] then []
        else map (\<lambda>k. mvalue (seg ! (k * (length seg div max 1 (unat (samples_to_collect sub))))))
               [0..<unat (samples_to_collect sub)]) \<and>
     length (samples sub) =
       (if seg = [] then 0 else min (unat samples_per_chunk) (unat (chunk_size (input ! cid))))"
  unfolding materialize_chunk_eq [OF assms]
  by (simp add: chunk_subsample_def chunk_output_def sample_values_def unat_min_word)

theorem samples_drawn_witness:
  "length (get_segment (gap_table ! 0) 0) < 2 ^ 64 \<and>
   (\<exists>s' seg sub.
      materialize_chunk \<lparr>cm_sort = False, cm_materialize_null = False\<rparr> gap_table 0 0
        \<lparr>ms_output = [None], ms_null_rows = [], ms_subsamples = []\<rparr> = Some s' \<and>
      ms_output s' = [Some seg] \<and> ms_subsamples s' = [sub] \<and>
      seg = [MaterializedValue (RowID 0 0) 1, MaterializedValue (RowID 0 2) 2] \<and>
      samples_to_collect sub = 3 \<and> length (samples sub) = 3)"
proof -
  have h: "length (get_segment (gap_table ! 0) 0) < 2 ^ 64" by (simp add: gap_table_def)
  from samples_drawn [OF h, of "\<lparr>cm_sort = False, cm_materialize_null = False\<rparr>"
      "\<lparr>ms_output = [None], ms_null_rows = [], ms_subsamples = []\<rparr>"]
  obtain s' seg sub where r:
    "materialize_chunk \<lparr>cm_sort = False, cm_materialize_null = False\<rparr> gap_table 0 0
        \<lparr>ms_output = [None], ms_null_rows = [], ms_subsamples = []\<rparr> = Some s'"
    "ms_output s' = (ms_output \<lparr>ms_output = [None], ms_null_rows = [], ms_subsamples = []\<rparr>)[0 := Some seg]"
    "ms_subsamples s' = ms_subsamples \<lparr>ms_output = [None :: int MaterializedSegment option], ms_null_rows = [], ms_subsamples = []\<rparr> @ [sub]"
    "seg = segment_output \<lparr>cm_sort = False, cm_materialize_null = False\<rparr> 0 (get_segment (gap_table ! 0) 0)"
    "samples_to_collect sub = min samples_per_chunk (chunk_size (gap_table ! 0))"
    "length (samples sub) =
       (if seg = [] then 0 else min (unat samples_per_chunk) (unat (chunk_size (gap_table ! 0))))"
    by blast
  have seg: "seg = [MaterializedValue (RowID 0 0) 1, MaterializedValue (RowID 0 2) 2]"
    using r(4) by (simp add: segment_output_def gap_table_def)
  have "samples_to_collect sub = 3" using r(5) by (simp add: gap_table_def samples_per_chunk_def)
  moreover have "length (samples sub) = 3"
    using r(6) seg by (simp add: gap_table_def samples_per_chunk_def)
  moreover have "ms_output s' = [Some seg]" using r(2) by simp
  moreover have "ms_subsamples s' = [sub]" using r(3) by simp
  ultimately show ?thesis using h r(1) seg by blast
qed

text \<open>
  A chunk of floating-point values \<open>{3, NaN, 1, 2}\<close>. NaN is less than nothing and nothing
  is less than NaN, so the sort leaves 3 and NaN where they are, moves 1 to the front and
  leaves 2 behind NaN: the segment returned with \<open>sort\<close> set holds 3 before 2.
\<close>

theorem sorted_segments_counterexample:
  "materialize \<lparr>cm_sort = True, cm_materialize_null = False\<rparr> nan_table 0 =
     Some ([Some [MaterializedValue (RowID 0 2) (Finite 1), MaterializedValue (RowID 0 0) (Finite 3),
                  MaterializedValue (RowID 0 1) NaN, MaterializedValue (RowID 0 3) (Finite 2)]],
           [], [Finite 1, Finite 3, NaN, Finite 2]) \<and>
   Finite 2 < Finite 3 \<and>
   \<not> non_decreasing
        [MaterializedValue (RowID 0 2) (Finite 1), MaterializedValue (RowID 0 0) (Finite 3),
         MaterializedValue (RowID 0 1) NaN, MaterializedValue (RowID 0 3) (Finite 2)]"
  by (simp add: materialize_eval_defs nan_table_def less_float_value_def non_decreasing_def)

text \<open>
  Claim C8, amended. With \<open>sort\<close> set, \<open>materialize\<close> returns, and every materialized
  segment it returns holds exactly the non-NULL cells of its own chunk (as a multiset, the
  order of equal values being left open) and has its values in non-decreasing order when
  \<open><\<close> is a strict weak order on the values of the chunk, as it is for integers, strings
  and floating-point values other than NaN. There is no order across chunks: for two
  chunks holding \<open>{4, 3}\<close> and \<open>{2, 1}\<close> the result is \<open>[3, 4]\<close> followed by \<open>[1, 2]\<close>.
\<close>

theorem sorted_segments:
  assumes "segments_fit input column_id" and "cm_sort cm"
  shows "(\<exists>out nulls smp.
            materialize cm input column_id = Some (out, nulls, smp) \<and>
            length out = length input \<and>
            (\<forall>cid < length input. \<exists>seg.
               out ! cid = Some seg \<and>
               mset seg = mset (materialized_from cid 0 (get_segment (input ! cid) column_id)) \<and>
               (strict_weak_on (segment_values (get_segment (input ! cid) column_id)) \<longrightarrow>
                  non_decreasing seg))) \<and>
         materialize \<lparr>cm_sort = True, cm_materialize_null = False\<rparr> descending_table 0 =
           Some ([Some [MaterializedValue (RowID 0 1) 3, MaterializedValue (RowID 0 0) 4],
                  Some [MaterializedValue (RowID 1 1) 1, MaterializedValue (RowID 1 0) 2]],
                 [], [3, 4, 1, 2])"
proof
  from materialize_eq [OF assms(1), of cm] obtain s where "run_jobs cm input column_id = Some s" and s:
    "materialize cm input column_id =
       Some (map (\<lambda>cid. Some (chunk_output cm input column_id cid)) [0..<length input],
             ms_null_rows s, concat (map samples (ms_subsamples s)))"
    by blast
  have o: "chunk_output cm input column_id cid =
      std_sort (materialized_from cid 0 (get_segment (input ! cid) column_id))" for cid
    using assms(2) by (simp add: chunk_output_def segment_output_def)
  have n: "non_decreasing (chunk_output cm input column_id cid)"
    if "strict_weak_on (segment_values (get_segment (input ! cid) column_id))" for cid
    unfolding o using that by (rule non_decreasing_std_sort) (simp add: values_materialized_from)
  have "\<forall>cid < length input. \<exists>seg.
      map (\<lambda>cid. Some (chunk_output cm input column_id cid)) [0..<length input] ! cid = Some seg \<and>
      mset seg = mset (materialized_from cid 0 (get_segment (input ! cid) column_id)) \<and>
      (strict_weak_on (segment_values (get_segment (input ! cid) column_id)) \<longrightarrow>
         non_decreasing seg)"
    using n by (simp add: o mset_std_sort)
  then show "\<exists>out nulls smp.
            materialize cm input column_id = Some (out, nulls, smp) \<and>
            length out = length input \<and>
            (\<forall>cid < length input. \<exists>seg.
               out ! cid = Some seg \<and>
               mset seg = mset (materialized_from cid 0 (get_segment (input ! cid) column_id)) \<and>
               (strict_weak_on (segment_values (get_segment (input ! cid) column_id)) \<longrightarrow>
                  non_decreasing seg))"
    using s by simp
next
  show "materialize \<lparr>cm_sort = True, cm_materialize_null = False\<rparr> descending_table 0 =
           Some ([Some [MaterializedValue (RowID 0 1) 3, MaterializedValue (RowID 0 0) 4],
                  Some [MaterializedValue (RowID 1 1) 1, MaterializedValue (RowID 1 0) 2]],
                 [], [3, 4, 1, 2])"
    by (rule materialize_descending_table)
qed

theorem sorted_segments_witness:
  "segments_fit descending_table 0 \<and> cm_sort \<lparr>cm_sort = True, cm_materialize_null = False\<rparr> \<and>
   strict_weak_on (segment_values (get_segment (descending_table ! 0) 0)) \<and>
   strict_weak_on (segment_values (get_segment (descending_table ! 1) 0)) \<and>
   (\<exists>out nulls smp.
      materialize \<lparr>cm_sort = True, cm_materialize_null = False\<rparr> descending_table 0 =
        Some (out, nulls, smp) \<and>
      length out = length descending_table \<and>
      (\<exists>seg. out ! 0 = Some seg \<and> non_decreasing seg \<and> sorted (map mvalue seg)) \<and>
      (\<exists>seg. out ! 1 = Some seg \<and> non_decreasing seg \<and> sorted (map mvalue seg)))"
proof -
  have h: "segments_fit descending_table 0"
    by (simp add: segments_fit_def descending_table_def)
  have c: "cm_sort \<lparr>cm_sort = True, cm_materialize_null = False\<rparr>" by simp
  have l: "0 < length descending_table" "1 < length descending_table"
    by (simp_all add: descending_table_def)
  have w: "strict_weak_on (segment_values (get_segment (descending_table ! 0) 0))"
    "strict_weak_on (segment_values (get_segment (descending_table ! 1) 0))"
    by (rule strict_weak_on_linorder)+
  from sorted_segments [OF h c]
  obtain out nulls smp where r:
    "materialize \<lparr>cm_sort = True, cm_materialize_null = False\<rparr> descending_table 0 =
        Some (out, nulls, smp)"
    "length out = length descending_table"
    "\<forall>cid < length descending_table. \<exists>seg.
               out ! cid = Some seg \<and>
               mset seg = mset (materialized_from cid 0 (get_segment (descending_table ! cid) 0)) \<and>
               (strict_weak_on (segment_values (get_segment (descending_table ! cid) 0)) \<longrightarrow>
                  non_decreasing seg)"
    by blast
  from r(3) l w have "\<exists>seg. out ! 0 = Some seg \<and> non_decreasing seg"
    "\<exists>seg. out ! 1 = Some seg \<and> non_decreasing seg"
    by blast+
  then have "\<exists>seg. out ! 0 = Some seg \<and> non_decreasing seg \<and> sorted (map mvalue seg)"
    "\<exists>seg. out ! 1 = Some seg \<and> non_decreasing seg \<and> sorted (map mvalue seg)"
    by (simp_all add: non_decreasing_linorder)
  then show ?thesis using h c w r(1) r(2) by blast
qed

text \<open>
  Claim C10. For a segment of size \<open>s > 0\<close> (a size a \<open>size_t\<close> holds) and a sample count
  \<open>c > 0\<close>, also when \<open>c > s\<close>, the index the sampler computes for every \<open>k\<close> below \<open>c\<close>
  is \<open>k * (s / max(1, c))\<close> without wrap-around on 64 bits and is below \<open>s\<close>; so the loop
  never reads outside the segment and \<open>_gather_samples_from_segment\<close> returns with \<open>c\<close> new
  samples.
\<close>

theorem sample_reads_in_bounds:
  fixes c :: "32 word"
  assumes "length segment < 2 ^ 64" and "0 < length segment" and "0 < c"
  shows "(\<forall>k < unat c.
            unat ((of_nat k :: 64 word) * (vector_size segment div ucast (max 1 c))) =
              k * (length segment div max 1 (unat c)) \<and>
            k * (length segment div max 1 (unat c)) < length segment) \<and>
         (\<exists>collected_samples.
            gather_loop segment c (vector_size segment div ucast (max 1 c)) 0 [] =
              Some collected_samples \<and>
            length collected_samples = unat c) \<and>
         (\<exists>subsample'.
            gather_samples_from_segment segment \<lparr>samples_to_collect = c, samples = acc\<rparr> =
              Some subsample' \<and>
            length (samples subsample') = length acc + unat c)"
proof (intro conjI)
  show b: "\<forall>k < unat c.
            unat ((of_nat k :: 64 word) * (vector_size segment div ucast (max 1 c))) =
              k * (length segment div max 1 (unat c)) \<and>
            k * (length segment div max 1 (unat c)) < length segment"
    using sample_index [OF assms(1) assms(2)] by blast
  then have "\<forall>k < unat c.
      unat ((of_nat k :: 64 word) * (vector_size segment div ucast (max 1 c))) < length segment"
    by simp
  then have "gather_loop segment c (vector_size segment div ucast (max 1 c)) (of_nat 0) [] =
     Some ([] @ map (\<lambda>k. mvalue (segment ! unat ((of_nat k :: 64 word) *
        (vector_size segment div ucast (max 1 c))))) [0..<unat c])"
    by (rule gather_loop_eq) simp
  then show "\<exists>collected_samples.
            gather_loop segment c (vector_size segment div ucast (max 1 c)) 0 [] =
              Some collected_samples \<and>
            length collected_samples = unat c"
    by simp
  have "segment \<noteq> []" using assms(2) by auto
  then show "\<exists>subsample'.
            gather_samples_from_segment segment \<lparr>samples_to_collect = c, samples = acc\<rparr> =
              Some subsample' \<and>
            length (samples subsample') = length acc + unat c"
    by (simp add: gather_samples_eq [OF assms(1)] length_sample_values)
qed

theorem sample_reads_in_bounds_witness:
  "length [MaterializedValue (RowID 0 0) (1::int), MaterializedValue (RowID 0 2) 2] < 2 ^ 64 \<and>
   0 < length [MaterializedValue (RowID 0 0) (1::int), MaterializedValue (RowID 0 2) 2] \<and>
   (0 :: 32 word) < 3 \<and>
   gather_loop [MaterializedValue (RowID 0 0) (1::int), MaterializedValue (RowID 0 2) 2] 3
     (vector_size [MaterializedValue (RowID 0 0) (1::int), MaterializedValue (RowID 0 2) 2]
        div ucast (max 1 (3 :: 32 word))) 0 [] = Some [1, 1, 1] \<and>
   unat ((of_nat 2 :: 64 word) *
      (vector_size [MaterializedValue (RowID 0 0) (1::int), MaterializedValue (RowID 0 2) 2]
         div ucast (max 1 (3 :: 32 word)))) =
     2 * (length [MaterializedValue (RowID 0 0) (1::int), MaterializedValue (RowID 0 2) 2]
            div max 1 (unat (3 :: 32 word))) \<and>
   2 * (length [MaterializedValue (RowID 0 0) (1::int), MaterializedValue (RowID 0 2) 2]
          div max 1 (unat (3 :: 32 word)))
     < length [MaterializedValue (RowID 0 0) (1::int), MaterializedValue (RowID 0 2) 2]"
proof -
  have h: "length [MaterializedValue (RowID 0 0) (1::int), MaterializedValue (RowID 0 2) 2] < 2 ^ 64"
    "0 < length [MaterializedValue (RowID 0 0) (1::int), MaterializedValue (RowID 0 2) 2]"
    "(0 :: 32 word) < 3"
    by simp_all
  have e: "gather_loop [MaterializedValue (RowID 0 0) (1::int), MaterializedValue (RowID 0 2) 2] 3
     (vector_size [MaterializedValue (RowID 0 0) (1::int), MaterializedValue (RowID 0 2) 2]
        div ucast (max 1 (3 :: 32 word))) 0 [] = Some [1, 1, 1]"
    by (simp add: gather_loop.simps vector_size_def)
  have k: "2 < unat (3 :: 32 word)" by simp
  from sample_reads_in_bounds [OF h]
  have "\<forall>k < unat (3 :: 32 word).
      unat ((of_nat k :: 64 word) *
        (vector_size [MaterializedValue (RowID 0 0) (1::int), MaterializedValue (RowID 0 2) 2]
           div ucast (max 1 (3 :: 32 word)))) =
        k * (length [MaterializedValue (RowID 0 0) (1::int), MaterializedValue (RowID 0 2) 2]
               div max 1 (unat (3 :: 32 word))) \<and>
      k * (length [MaterializedValue (RowID 0 0) (1::int), MaterializedValue (RowID 0 2) 2]
             div max 1 (unat (3 :: 32 word)))
        < length [MaterializedValue (RowID 0 0) (1::int), MaterializedValue (RowID 0 2) 2]"
    by blast
  from this [rule_format, OF k] show ?thesis using h e by blast
qed

end
